theory Spec2Isabelle
  imports Complex_Main "HOL-Library.Word" "HOL-Library.Sublist"
begin

section \<open>The adoption scanner of tracker.go\<close>

text \<open>
  The scanner probes every DNS name of every certificate over TLS, classifies the probe
  and counts the classes. This theory embeds \<^verbatim>\<open>processResults\<close>, \<^verbatim>\<open>percent\<close>,
  \<^verbatim>\<open>checkName\<close>, \<^verbatim>\<open>checkCert\<close> and the worker pool of \<^verbatim>\<open>begin\<close>.
\<close>

subsection \<open>The counters\<close>

text \<open>
  Every counter of \<^verbatim>\<open>collectedResults\<close>, and \<^verbatim>\<open>processedCerts\<close> and
  \<^verbatim>\<open>processedNames\<close> of \<^verbatim>\<open>tester\<close>, is an \<^verbatim>\<open>int64\<close> that the code only
  touches through \<^verbatim>\<open>atomic.AddInt64(&t.results.X, 1)\<close>: through its address. The
  addresses are the datatype \<open>field\<close>, the memory holding the counters is a store from
  addresses to 64-bit words, and \<^verbatim>\<open>AddInt64\<close> wraps around as the machine does.
\<close>

datatype field =
    NamesSkipped
  | NamesUnavailable
  | NamesTLSError
  | NamesUsingMiscInvalidCert
  | NamesUsingExpiredCert
  | NamesUsingIncompleteChain
  | NamesUsingWrongCert
  | NamesUsingSelfSignedCert
  | NamesWithOCSPStapled
  | NamesServingSCTs
  | NamesCertNotUsed
  | CertsUnused
  | CertsPartiallyUsed
  | CertsTotallyUsed
  | processedCerts
  | processedNames

type_synonym store = "field \<Rightarrow> 64 word"

definition AddInt64 :: "field \<Rightarrow> 64 word \<Rightarrow> store \<Rightarrow> store" where
  "AddInt64 addr delta s = s(addr := s addr + delta)"

text \<open>A \<^verbatim>\<open>tester\<close> literal leaves every counter at Go's zero value.\<close>

definition zero_store :: store where
  "zero_store = (\<lambda>_. 0)"

subsection \<open>The result of one probe\<close>

record result =
  skipped :: bool
  hostAvailable :: bool
  tlsError :: bool
  usingMiscInvalidCert :: bool
  usingExpiredCert :: bool
  usingIncompleteChain :: bool
  usingWrongCert :: bool
  usingSelfSignedCert :: bool
  certUsed :: bool
  ocspStapled :: bool
  servesSCTs :: bool

text \<open>The named return value \<^verbatim>\<open>r\<close> of \<^verbatim>\<open>checkName\<close> starts as the zero struct.\<close>

definition zero_result :: result where
  "zero_result = \<lparr> skipped = False, hostAvailable = False, tlsError = False,
     usingMiscInvalidCert = False, usingExpiredCert = False, usingIncompleteChain = False,
     usingWrongCert = False, usingSelfSignedCert = False, certUsed = False,
     ocspStapled = False, servesSCTs = False \<rparr>"

subsection \<open>processResults\<close>

text \<open>
  The \<^verbatim>\<open>for _, r := range results\<close> loop, with the local \<^verbatim>\<open>used\<close> and the store
  threaded through. \<^verbatim>\<open>used\<close> is a Go \<^verbatim>\<open>int\<close>; it never exceeds
  \<^verbatim>\<open>len(results)\<close>, itself an \<^verbatim>\<open>int\<close>, so it cannot overflow and is a \<open>nat\<close> here.
  Each \<^verbatim>\<open>continue\<close> is the recursive call on the rest of the slice.
\<close>

fun processResults_loop :: "result list \<Rightarrow> nat \<Rightarrow> store \<Rightarrow> nat \<times> store" where
  "processResults_loop [] used s = (used, s)"
| "processResults_loop (r # rs) used s =
     (if skipped r then processResults_loop rs used (AddInt64 NamesSkipped 1 s)
      else if \<not> hostAvailable r then processResults_loop rs used (AddInt64 NamesUnavailable 1 s)
      else if tlsError r then processResults_loop rs used (AddInt64 NamesTLSError 1 s)
      else if usingMiscInvalidCert r then
        processResults_loop rs used (AddInt64 NamesUsingMiscInvalidCert 1 s)
      else if usingExpiredCert r then
        processResults_loop rs used (AddInt64 NamesUsingExpiredCert 1 s)
      else if usingIncompleteChain r then
        processResults_loop rs used (AddInt64 NamesUsingIncompleteChain 1 s)
      else if usingWrongCert r then
        processResults_loop rs used (AddInt64 NamesUsingWrongCert 1 s)
      else if usingSelfSignedCert r then
        processResults_loop rs used (AddInt64 NamesUsingSelfSignedCert 1 s)
      else if \<not> certUsed r then processResults_loop rs used (AddInt64 NamesCertNotUsed 1 s)
      else
        let s1 = (if ocspStapled r then AddInt64 NamesWithOCSPStapled 1 s else s);
            s2 = (if servesSCTs r then AddInt64 NamesServingSCTs 1 s1 else s1)
        in processResults_loop rs (used + 1) s2)"

text \<open>
  The three-way test after the loop, in the order of the code. The chain has no final
  \<^verbatim>\<open>else\<close>: when no test holds, nothing is added.
\<close>

definition summarise :: "nat \<Rightarrow> nat \<Rightarrow> store \<Rightarrow> store" where
  "summarise used len s =
     (if used = len then AddInt64 CertsTotallyUsed 1 s
      else if used < len \<and> used > 0 then AddInt64 CertsPartiallyUsed 1 s
      else if used = 0 then AddInt64 CertsUnused 1 s
      else s)"

definition processResults :: "result list \<Rightarrow> store \<Rightarrow> store" where
  "processResults results s =
     (case processResults_loop results 0 s of (used, s') \<Rightarrow> summarise used (length results) s')"

text \<open>
  The classes of the specification, \<open>ProbeOutcome\<close>, name the branches of the loop body:
  \<open>outcome_of r\<close> is the branch that the body takes on \<open>r\<close>, read off the same chain of
  tests in the same order. \<open>Valid\<close> carries the two flags that the last branch looks at.
\<close>

datatype ProbeOutcome =
    Skipped
  | Unavailable
  | TLSError
  | IncompleteChain
  | WrongCert
  | ExpiredCert
  | SelfSignedCert
  | MiscInvalidCert
  | CertNotPresented
  | Valid bool bool

definition outcome_of :: "result \<Rightarrow> ProbeOutcome" where
  "outcome_of r =
     (if skipped r then Skipped
      else if \<not> hostAvailable r then Unavailable
      else if tlsError r then TLSError
      else if usingMiscInvalidCert r then MiscInvalidCert
      else if usingExpiredCert r then ExpiredCert
      else if usingIncompleteChain r then IncompleteChain
      else if usingWrongCert r then WrongCert
      else if usingSelfSignedCert r then SelfSignedCert
      else if \<not> certUsed r then CertNotPresented
      else Valid (ocspStapled r) (servesSCTs r))"

text \<open>The counters that one pass of the loop body adds to, for each class, in order.\<close>

fun outcome_adds :: "ProbeOutcome \<Rightarrow> field list" where
  "outcome_adds Skipped = [NamesSkipped]"
| "outcome_adds Unavailable = [NamesUnavailable]"
| "outcome_adds TLSError = [NamesTLSError]"
| "outcome_adds MiscInvalidCert = [NamesUsingMiscInvalidCert]"
| "outcome_adds ExpiredCert = [NamesUsingExpiredCert]"
| "outcome_adds IncompleteChain = [NamesUsingIncompleteChain]"
| "outcome_adds WrongCert = [NamesUsingWrongCert]"
| "outcome_adds SelfSignedCert = [NamesUsingSelfSignedCert]"
| "outcome_adds CertNotPresented = [NamesCertNotUsed]"
| "outcome_adds (Valid ocsp sct) =
     (if ocsp then [NamesWithOCSPStapled] else []) @ (if sct then [NamesServingSCTs] else [])"

fun is_Valid :: "ProbeOutcome \<Rightarrow> bool" where
  "is_Valid (Valid ocsp sct) = True"
| "is_Valid other = False"

text \<open>\<open>count_Valid\<close> is the number of results of class \<open>Valid\<close>: the specification's \<open>used\<close>.\<close>

definition count_Valid :: "result list \<Rightarrow> nat" where
  "count_Valid results = length (filter (\<lambda>r. is_Valid (outcome_of r)) results)"

text \<open>Running a sequence of atomic additions of 1, one after the other.\<close>

definition run_adds :: "field list \<Rightarrow> store \<Rightarrow> store" where
  "run_adds fs s = foldl (\<lambda>s' f. AddInt64 f 1 s') s fs"

text \<open>
  The additions of a whole call of \<^verbatim>\<open>processResults\<close>, in the order the code makes
  them: those of each loop pass, then the one of the three-way test.
\<close>

definition summary_adds :: "nat \<Rightarrow> nat \<Rightarrow> field list" where
  "summary_adds used len =
     (if used = len then [CertsTotallyUsed]
      else if used < len \<and> used > 0 then [CertsPartiallyUsed]
      else if used = 0 then [CertsUnused]
      else [])"

definition processResults_adds :: "result list \<Rightarrow> field list" where
  "processResults_adds results =
     concat (map (\<lambda>r. outcome_adds (outcome_of r)) results)
       @ summary_adds (count_Valid results) (length results)"

subsection \<open>percent\<close>

text \<open>
  \<^verbatim>\<open>percent\<close> computes in \<^verbatim>\<open>float64\<close>. A \<^verbatim>\<open>float64\<close> is a finite value, an
  infinity or NaN. The two zeros of IEEE 754 are one \<open>Finite 0\<close> here: the operands of
  the division are \<^verbatim>\<open>float64(n)\<close> of integers, never the negative zero, so a zero
  divisor is the positive zero. The rounding of a finite result to the nearest
  \<^verbatim>\<open>float64\<close> is the parameter \<open>rnd\<close>; no finite result of \<^verbatim>\<open>percent\<close> is large
  enough to overflow. Division of a finite value by zero does not trap: it gives NaN
  for \<open>0 / 0\<close> and an infinity with the sign of the numerator otherwise.
\<close>

datatype float64 = Finite real | PosInf | NegInf | NaN

definition float64_of_int64 :: "(real \<Rightarrow> real) \<Rightarrow> 64 word \<Rightarrow> float64" where
  "float64_of_int64 rnd n = Finite (rnd (real_of_int (sint n)))"

fun float64_div :: "(real \<Rightarrow> real) \<Rightarrow> float64 \<Rightarrow> float64 \<Rightarrow> float64" where
  "float64_div rnd (Finite a) (Finite b) =
     (if b = 0 then (if a = 0 then NaN else if 0 < a then PosInf else NegInf)
      else Finite (rnd (a / b)))"
| "float64_div rnd (Finite a) PosInf = Finite 0"
| "float64_div rnd (Finite a) NegInf = Finite 0"
| "float64_div rnd PosInf (Finite b) = (if 0 \<le> b then PosInf else NegInf)"
| "float64_div rnd NegInf (Finite b) = (if 0 \<le> b then NegInf else PosInf)"
| "float64_div rnd x y = NaN"

fun float64_mul :: "(real \<Rightarrow> real) \<Rightarrow> float64 \<Rightarrow> float64 \<Rightarrow> float64" where
  "float64_mul rnd (Finite a) (Finite b) = Finite (rnd (a * b))"
| "float64_mul rnd PosInf (Finite b) =
     (if b = 0 then NaN else if 0 < b then PosInf else NegInf)"
| "float64_mul rnd NegInf (Finite b) =
     (if b = 0 then NaN else if 0 < b then NegInf else PosInf)"
| "float64_mul rnd (Finite a) PosInf =
     (if a = 0 then NaN else if 0 < a then PosInf else NegInf)"
| "float64_mul rnd (Finite a) NegInf =
     (if a = 0 then NaN else if 0 < a then NegInf else PosInf)"
| "float64_mul rnd PosInf PosInf = PosInf"
| "float64_mul rnd NegInf NegInf = PosInf"
| "float64_mul rnd PosInf NegInf = NegInf"
| "float64_mul rnd NegInf PosInf = NegInf"
| "float64_mul rnd x y = NaN"

definition percent :: "(real \<Rightarrow> real) \<Rightarrow> 64 word \<Rightarrow> 64 word \<Rightarrow> float64" where
  "percent rnd n t =
     float64_mul rnd (float64_div rnd (float64_of_int64 rnd n) (float64_of_int64 rnd t))
       (Finite 100)"

text \<open>
  What is used of the rounding: zero is a \<^verbatim>\<open>float64\<close>, and rounding a value of
  magnitude at least 1 keeps its sign.
\<close>

definition rounding :: "(real \<Rightarrow> real) \<Rightarrow> bool" where
  "rounding rnd = (rnd 0 = 0 \<and> (\<forall>x. 1 \<le> \<bar>x\<bar> \<longrightarrow> sgn (rnd x) = sgn x))"

subsection \<open>checkName\<close>

text \<open>
  What \<^verbatim>\<open>tls.DialWithDialer\<close> hands back: an error or a connection. An error value is
  its dynamic type, which the type assertions of \<^verbatim>\<open>checkName\<close> test, and the text of
  \<^verbatim>\<open>err.Error()\<close>. Of a \<^verbatim>\<open>*net.OpError\<close> the code reads \<^verbatim>\<open>Timeout()\<close>,
  \<^verbatim>\<open>Temporary()\<close> and the wrapped \<^verbatim>\<open>Err\<close>, of which it asks whether it is a
  \<^verbatim>\<open>*net.DNSError\<close> and then the same two questions.
\<close>

type_synonym bytes = "8 word list"

datatype wrapped_error = DNSError bool bool | OtherWrapped

datatype InvalidReason =
    NotAuthorizedToSign
  | Expired
  | CANotAuthorizedForThisName
  | TooManyIntermediates
  | IncompatibleUsage
  | OtherReason nat

datatype error_type =
    OpError bool bool wrapped_error
  | UnknownAuthorityError
  | HostnameError
  | CertificateInvalidError InvalidReason
  | OtherError

record go_error =
  dynamic_type :: error_type
  Error :: string

text \<open>
  Of the connection the code reads \<^verbatim>\<open>conn.ConnectionState()\<close>: these four fields,
  each peer certificate through its \<^verbatim>\<open>Raw\<close> bytes.
\<close>

record ConnectionState =
  HandshakeComplete :: bool
  PeerCertificates :: "bytes list"
  OCSPResponse :: bytes
  SignedCertificateTimestamps :: "bytes list"

datatype dial_result = DialError go_error | DialConn ConnectionState

text \<open>
  \<^verbatim>\<open>for _, peer := range state.PeerCertificates\<close> with its \<^verbatim>\<open>break\<close>; \<open>sha256\<close> is
  \<^verbatim>\<open>sha256.Sum256\<close>, a parameter of the model.
\<close>

fun peer_loop :: "(bytes \<Rightarrow> bytes) \<Rightarrow> bytes \<Rightarrow> bytes list \<Rightarrow> bool" where
  "peer_loop sha256 expectedFP [] = False"
| "peer_loop sha256 expectedFP (peer # peers) =
     (if sha256 peer = expectedFP then True else peer_loop sha256 expectedFP peers)"

definition is_OpError :: "error_type \<Rightarrow> bool" where
  "is_OpError ty = (case ty of OpError tmo tmp inner \<Rightarrow> True | _ \<Rightarrow> False)"

text \<open>The branch \<^verbatim>\<open>if netErr, ok := err.(*net.OpError); ok\<close>, up to its \<^verbatim>\<open>return\<close>.\<close>

definition checkName_OpError :: "bool \<Rightarrow> bool \<Rightarrow> wrapped_error \<Rightarrow> result" where
  "checkName_OpError netTimeout netTemporary inner =
     (let r1 = (if netTimeout \<or> netTemporary then zero_result\<lparr>skipped := True\<rparr>
                else zero_result)
      in case inner of
           DNSError dnsTimeout dnsTemporary \<Rightarrow>
             (if dnsTimeout \<or> dnsTemporary then r1\<lparr>skipped := True\<rparr> else r1)
         | OtherWrapped \<Rightarrow> r1)"

text \<open>The rest of the branch \<^verbatim>\<open>if err != nil\<close>, for an error of any other type.\<close>

definition checkName_error :: "go_error \<Rightarrow> result" where
  "checkName_error err =
     (let r = zero_result\<lparr>hostAvailable := True\<rparr>
      in if prefix ''tls:'' (Error err) \<or> Error err = ''EOF'' then r\<lparr>tlsError := True\<rparr>
         else if dynamic_type err = UnknownAuthorityError then r\<lparr>usingIncompleteChain := True\<rparr>
         else if dynamic_type err = HostnameError then r\<lparr>usingWrongCert := True\<rparr>
         else case dynamic_type err of
                CertificateInvalidError reason \<Rightarrow>
                  (if reason = Expired then r\<lparr>usingExpiredCert := True\<rparr>
                   else if reason = NotAuthorizedToSign then r\<lparr>usingSelfSignedCert := True\<rparr>
                   else r\<lparr>usingMiscInvalidCert := True\<rparr>)
              | _ \<Rightarrow> r\<lparr>usingMiscInvalidCert := True\<rparr>)"

text \<open>The code after the branch: the dial gave a connection.\<close>

definition checkName_conn :: "(bytes \<Rightarrow> bytes) \<Rightarrow> ConnectionState \<Rightarrow> bytes \<Rightarrow> result" where
  "checkName_conn sha256 state expectedFP =
     (let r = zero_result\<lparr>hostAvailable := True\<rparr>
      in if \<not> HandshakeComplete state then r
         else
           let r1 = (if peer_loop sha256 expectedFP (PeerCertificates state)
                     then r\<lparr>certUsed := True\<rparr> else r);
               r2 = (if length (OCSPResponse state) \<noteq> 0 then r1\<lparr>ocspStapled := True\<rparr> else r1);
               r3 = (if length (SignedCertificateTimestamps state) \<noteq> 0
                     then r2\<lparr>servesSCTs := True\<rparr> else r2)
           in r3)"

definition checkName_result :: "(bytes \<Rightarrow> bytes) \<Rightarrow> dial_result \<Rightarrow> bytes \<Rightarrow> result" where
  "checkName_result sha256 dialled expectedFP =
     (case dialled of
        DialError err \<Rightarrow>
          (case dynamic_type err of
             OpError netTimeout netTemporary inner \<Rightarrow>
               checkName_OpError netTimeout netTemporary inner
           | _ \<Rightarrow> checkName_error err)
      | DialConn state \<Rightarrow> checkName_conn sha256 state expectedFP)"

text \<open>
  \<^verbatim>\<open>checkName\<close> itself: \<open>dial dnsName\<close> is the answer of the network to the dial of
  \<^verbatim>\<open>dnsName:443\<close>, and the deferred \<^verbatim>\<open>atomic.AddInt64(&t.processedNames, 1)\<close> runs
  on every return. The debug print and \<^verbatim>\<open>conn.Close()\<close> touch no counter.
\<close>

definition checkName ::
  "(bytes \<Rightarrow> bytes) \<Rightarrow> (string \<Rightarrow> dial_result) \<Rightarrow> string \<Rightarrow> bytes \<Rightarrow> store \<Rightarrow> result \<times> store" where
  "checkName sha256 dial dnsName expectedFP s =
     (checkName_result sha256 (dial dnsName) expectedFP, AddInt64 processedNames 1 s)"

subsection \<open>checkCert\<close>

text \<open>Of an \<^verbatim>\<open>x509.Certificate\<close> the scan reads \<^verbatim>\<open>Raw\<close> and \<^verbatim>\<open>DNSNames\<close>.\<close>

record Certificate =
  Raw :: bytes
  DNSNames :: "string list"

fun checkCert_loop ::
  "(bytes \<Rightarrow> bytes) \<Rightarrow> (string \<Rightarrow> dial_result) \<Rightarrow> bytes \<Rightarrow> string list \<Rightarrow> result list \<Rightarrow> store
     \<Rightarrow> result list \<times> store" where
  "checkCert_loop sha256 dial fp [] results s = (results, s)"
| "checkCert_loop sha256 dial fp (name # names) results s =
     (case checkName sha256 dial name fp s of
        (r, s') \<Rightarrow> checkCert_loop sha256 dial fp names (results @ [r]) s')"

definition checkCert ::
  "(bytes \<Rightarrow> bytes) \<Rightarrow> (string \<Rightarrow> dial_result) \<Rightarrow> Certificate \<Rightarrow> store \<Rightarrow> store" where
  "checkCert sha256 dial cert s =
     (let fp = sha256 (Raw cert)
      in case checkCert_loop sha256 dial fp (DNSNames cert) [] s of
           (results, s1) \<Rightarrow> AddInt64 processedCerts 1 (processResults results s1))"

subsection \<open>The worker pool of begin\<close>

text \<open>
  \<^verbatim>\<open>begin\<close> starts \<^verbatim>\<open>t.workers\<close> goroutines that share the closed, filled channel
  \<^verbatim>\<open>t.entries\<close> and the counters, each with a stop channel of capacity 1 of its own,
  and one goroutine that waits for the interrupt and then sends on every stop channel.
  The goroutines meet only in channel operations and atomic additions, so a run is an
  interleaving of those; a worker is its place in the code together with its locals:

  \<^item> \<open>Receiving\<close>: at \<^verbatim>\<open>for te := range t.entries\<close>;
  \<^item> \<open>Selecting te\<close>: holding \<^verbatim>\<open>te\<close>, at the \<^verbatim>\<open>select\<close>;
  \<^item> \<open>Probing fp names results\<close>: in the loop of \<^verbatim>\<open>checkCert\<close>, \<open>names\<close> still to
    probe;
  \<^item> \<open>Adding fs\<close>: in \<^verbatim>\<open>processResults\<close>, the additions \<open>fs\<close> still to make, the last
    of them the deferred one to \<^verbatim>\<open>processedCerts\<close>;
  \<^item> \<open>Returned\<close>: the goroutine has returned and \<^verbatim>\<open>wg.Done()\<close> has run.
\<close>

datatype worker =
    Receiving
  | Selecting Certificate
  | Probing bytes "string list" "result list"
  | Adding "field list"
  | Returned

text \<open>
  The goroutine of the interrupt: blocked in \<^verbatim>\<open><-sigChan\<close>, or in its loop over
  \<^verbatim>\<open>stopWorkers\<close> about to send on the channel of the given index, or past the loop.
\<close>

datatype handler = Waiting | Sending nat | Finished

text \<open>
  \<open>stops ! i\<close> says that the stop channel of worker \<open>i\<close> holds a value; \<^verbatim>\<open>begin\<close>
  makes one stop channel for each worker. \<open>clock\<close> counts
  the steps taken, so that the network may answer differently at different times.
  \<open>begun\<close> is a history variable, not a variable of the code: the certificates for which
  \<^verbatim>\<open>checkCert\<close> has been called, in the order of the calls.
\<close>

record pool =
  entries :: "Certificate list"
  counters :: store
  workers :: "worker list"
  stops :: "bool list"
  handler :: handler
  clock :: nat
  begun :: "Certificate list"

definition set_worker :: "nat \<Rightarrow> worker \<Rightarrow> pool \<Rightarrow> pool" where
  "set_worker i w p = p\<lparr>workers := (workers p)[i := w]\<rparr>"

text \<open>
  One step of worker \<open>i\<close>. Receiving from the closed channel takes the next certificate
  or, when none is left, ends the loop. The \<^verbatim>\<open>select\<close> takes the stop value when there
  is one and returns, dropping the certificate it holds; otherwise it calls
  \<^verbatim>\<open>checkCert\<close>. Inside \<^verbatim>\<open>checkCert\<close> each call of \<^verbatim>\<open>checkName\<close> is a step, then
  each atomic addition of \<^verbatim>\<open>processResults\<close> and the deferred one.
\<close>

definition worker_step ::
  "(bytes \<Rightarrow> bytes) \<Rightarrow> (nat \<Rightarrow> string \<Rightarrow> dial_result) \<Rightarrow> nat \<Rightarrow> pool \<Rightarrow> pool" where
  "worker_step sha256 net i p =
     (case workers p ! i of
        Receiving \<Rightarrow>
          (case entries p of
             [] \<Rightarrow> set_worker i Returned p
           | te # rest \<Rightarrow> set_worker i (Selecting te) (p\<lparr>entries := rest\<rparr>))
      | Selecting te \<Rightarrow>
          (if i < length (stops p) \<and> stops p ! i
           then set_worker i Returned (p\<lparr>stops := (stops p)[i := False]\<rparr>)
           else set_worker i (Probing (sha256 (Raw te)) (DNSNames te) [])
                  (p\<lparr>begun := begun p @ [te]\<rparr>))
      | Probing fp names results \<Rightarrow>
          (case names of
             [] \<Rightarrow> set_worker i (Adding (processResults_adds results @ [processedCerts])) p
           | name # rest \<Rightarrow>
               (case checkName sha256 (net (clock p)) name fp (counters p) of
                  (r, s') \<Rightarrow> set_worker i (Probing fp rest (results @ [r])) (p\<lparr>counters := s'\<rparr>)))
      | Adding fs \<Rightarrow>
          (case fs of
             [] \<Rightarrow> set_worker i Receiving p
           | f # rest \<Rightarrow> set_worker i (Adding rest) (p\<lparr>counters := AddInt64 f 1 (counters p)\<rparr>))
      | Returned \<Rightarrow> p)"

text \<open>
  What the scheduler and the outside world choose at each step: a worker moves, the
  interrupt arrives, or the goroutine of the interrupt makes its next send.
\<close>

datatype event = Work nat | Interrupt | Send

definition handler_step :: "pool \<Rightarrow> pool" where
  "handler_step p =
     (case handler p of
        Waiting \<Rightarrow> p
      | Sending i \<Rightarrow>
          (if i < length (stops p)
           then p\<lparr>stops := (stops p)[i := True], handler := Sending (Suc i)\<rparr>
           else p\<lparr>handler := Finished\<rparr>)
      | Finished \<Rightarrow> p)"

definition step ::
  "(bytes \<Rightarrow> bytes) \<Rightarrow> (nat \<Rightarrow> string \<Rightarrow> dial_result) \<Rightarrow> event \<Rightarrow> pool \<Rightarrow> pool" where
  "step sha256 net e p =
     (let p' = (case e of
                  Work i \<Rightarrow> (if i < length (workers p) then worker_step sha256 net i p else p)
                | Interrupt \<Rightarrow> (if handler p = Waiting then p\<lparr>handler := Sending 0\<rparr> else p)
                | Send \<Rightarrow> handler_step p)
      in p'\<lparr>clock := Suc (clock p')\<rparr>)"

definition run ::
  "(bytes \<Rightarrow> bytes) \<Rightarrow> (nat \<Rightarrow> string \<Rightarrow> dial_result) \<Rightarrow> event list \<Rightarrow> pool \<Rightarrow> pool" where
  "run sha256 net sched p = foldl (\<lambda>q e. step sha256 net e q) p sched"

text \<open>
  The pool as \<^verbatim>\<open>begin\<close> sets it up: the loop \<^verbatim>\<open>for i := 0; i < t.workers; i++\<close> starts
  no worker when \<^verbatim>\<open>t.workers\<close> is not positive.
\<close>

definition begin_pool :: "int \<Rightarrow> Certificate list \<Rightarrow> pool" where
  "begin_pool nworkers certs =
     \<lparr> entries = certs, counters = zero_store, workers = replicate (nat nworkers) Receiving,
       stops = replicate (nat nworkers) False, handler = Waiting, clock = 0, begun = [] \<rparr>"

text \<open>\<^verbatim>\<open>wg.Wait()\<close> returns, and the report is printed, once every worker has returned.\<close>

definition all_returned :: "pool \<Rightarrow> bool" where
  "all_returned p = list_all (\<lambda>w. w = Returned) (workers p)"

text \<open>A worker is in the middle of a certificate from the call of \<^verbatim>\<open>checkCert\<close> to its return.\<close>

fun mid_certificate :: "worker \<Rightarrow> bool" where
  "mid_certificate (Probing fp names results) = True"
| "mid_certificate (Adding fs) = True"
| "mid_certificate w = False"

text \<open>The scan of a whole queue by one thread of control, certificate after certificate.\<close>

definition scan_all ::
  "(bytes \<Rightarrow> bytes) \<Rightarrow> (string \<Rightarrow> dial_result) \<Rightarrow> Certificate list \<Rightarrow> store" where
  "scan_all sha256 dial certs = foldl (\<lambda>s cert. checkCert sha256 dial cert s) zero_store certs"

subsection \<open>Notions used to state the properties\<close>

text \<open>
  The inner test of the \<^verbatim>\<open>*net.OpError\<close> branch: the wrapped error is a
  \<^verbatim>\<open>*net.DNSError\<close> that reports a timeout or a temporary failure.
\<close>

fun transient_DNSError :: "wrapped_error \<Rightarrow> bool" where
  "transient_DNSError (DNSError dnsTimeout dnsTemporary) = (dnsTimeout \<or> dnsTemporary)"
| "transient_DNSError OtherWrapped = False"

text \<open>
  The priority chain in the words of the specification (section 4.1, steps 3 to 6, with
  the catch-all of the code as its last line), to compare \<^verbatim>\<open>checkName\<close> with.
\<close>

definition priority_chain :: "go_error \<Rightarrow> ProbeOutcome" where
  "priority_chain err =
     (if prefix ''tls:'' (Error err) \<or> Error err = ''EOF'' then TLSError
      else if dynamic_type err = UnknownAuthorityError then IncompleteChain
      else if dynamic_type err = HostnameError then WrongCert
      else if dynamic_type err = CertificateInvalidError Expired then ExpiredCert
      else if dynamic_type err = CertificateInvalidError NotAuthorizedToSign then SelfSignedCert
      else MiscInvalidCert)"

subsection \<open>Accounting for the additions of a run\<close>

text \<open>
  The additions a worker has still to make before it is back at the head of its loop,
  if the network answers \<open>dial\<close> from now on: for a worker inside \<^verbatim>\<open>checkCert\<close> one to
  \<^verbatim>\<open>processedNames\<close> for each name left, then those of \<^verbatim>\<open>processResults\<close> on the
  results it will then hold, then the deferred one.
\<close>

fun pending :: "(bytes \<Rightarrow> bytes) \<Rightarrow> (string \<Rightarrow> dial_result) \<Rightarrow> worker \<Rightarrow> field list" where
  "pending sha256 dial (Probing fp names results) =
     replicate (length names) processedNames
       @ processResults_adds (results @ map (\<lambda>name. checkName_result sha256 (dial name) fp) names)
       @ [processedCerts]"
| "pending sha256 dial (Adding fs) = fs"
| "pending sha256 dial w = []"

text \<open>All the additions of one call of \<^verbatim>\<open>checkCert\<close>, in the order the code makes them.\<close>

definition cert_adds ::
  "(bytes \<Rightarrow> bytes) \<Rightarrow> (string \<Rightarrow> dial_result) \<Rightarrow> Certificate \<Rightarrow> field list" where
  "cert_adds sha256 dial cert =
     pending sha256 dial (Probing (sha256 (Raw cert)) (DNSNames cert) [])"

text \<open>
  A weight \<open>wt\<close> gives every counter a word; a sequence of additions weighs the sum of
  the weights of its counters. \<open>only f\<close> weighs additions to \<open>f\<close> alone,
  \<open>summary_weight\<close> those to the three certificate counters, and \<open>balance_weight\<close> sets
  the three certificate counters against \<^verbatim>\<open>processedCerts\<close>.
\<close>

definition weigh :: "(field \<Rightarrow> 64 word) \<Rightarrow> field list \<Rightarrow> 64 word" where
  "weigh wt fs = sum_list (map wt fs)"

definition only :: "field \<Rightarrow> field \<Rightarrow> 64 word" where
  "only f g = (if g = f then 1 else 0)"

definition summary_weight :: "field \<Rightarrow> 64 word" where
  "summary_weight f =
     (if f = CertsUnused \<or> f = CertsPartiallyUsed \<or> f = CertsTotallyUsed then 1 else 0)"

definition balance_weight :: "field \<Rightarrow> 64 word" where
  "balance_weight f = summary_weight f - only processedCerts f"

definition summary_total :: "store \<Rightarrow> 64 word" where
  "summary_total s = s CertsUnused + s CertsPartiallyUsed + s CertsTotallyUsed"

text \<open>
  \<open>owed\<close> is the weight of what the workers of a pool have still to add, \<open>due\<close> the
  weight of all the additions of the certificates begun so far. A pool is \<open>settled\<close> for
  a reading \<open>m\<close> of the counters when what \<open>m\<close> reads and what is owed make up what is
  due. \<open>observes m wt\<close> says that \<open>m\<close> grows by \<open>wt f\<close> with every addition to \<open>f\<close>.
\<close>

definition owed ::
  "(bytes \<Rightarrow> bytes) \<Rightarrow> (string \<Rightarrow> dial_result) \<Rightarrow> (field \<Rightarrow> 64 word) \<Rightarrow> pool \<Rightarrow> 64 word" where
  "owed sha256 dial wt p = sum_list (map (\<lambda>w. weigh wt (pending sha256 dial w)) (workers p))"

definition due ::
  "(bytes \<Rightarrow> bytes) \<Rightarrow> (string \<Rightarrow> dial_result) \<Rightarrow> (field \<Rightarrow> 64 word) \<Rightarrow> pool \<Rightarrow> 64 word" where
  "due sha256 dial wt p =
     sum_list (map (\<lambda>cert. weigh wt (cert_adds sha256 dial cert)) (begun p))"

definition settled ::
  "(bytes \<Rightarrow> bytes) \<Rightarrow> (string \<Rightarrow> dial_result) \<Rightarrow> (store \<Rightarrow> 64 word) \<Rightarrow> (field \<Rightarrow> 64 word)
     \<Rightarrow> pool \<Rightarrow> bool" where
  "settled sha256 dial m wt p = (m (counters p) + owed sha256 dial wt p = due sha256 dial wt p)"

definition observes :: "(store \<Rightarrow> 64 word) \<Rightarrow> (field \<Rightarrow> 64 word) \<Rightarrow> bool" where
  "observes m wt = (\<forall>f s. m (AddInt64 f 1 s) = m s + wt f)"

text \<open>
  A weight is \<open>blind\<close> when the additions of \<^verbatim>\<open>processResults\<close> weigh the same whatever
  the probes found, and \<open>names_free\<close> when the additions of a loop pass weigh nothing.
\<close>

definition blind :: "(field \<Rightarrow> 64 word) \<Rightarrow> bool" where
  "blind wt = (\<forall>rs rs'. length rs = length rs' \<longrightarrow>
      weigh wt (processResults_adds rs) = weigh wt (processResults_adds rs'))"

definition names_free :: "(field \<Rightarrow> 64 word) \<Rightarrow> bool" where
  "names_free wt = (\<forall>oc. weigh wt (outcome_adds oc) = 0)"

text \<open>
  While no interrupt has arrived the pool is \<open>quiet\<close>: the goroutine of the interrupt
  waits and no stop channel holds a value. Then no certificate is lost: for any
  measure \<open>g\<close> of certificates, those begun, those still queued and those \<open>held\<close> at a
  \<^verbatim>\<open>select\<close> measure together what the queue measured at the start (\<open>conserved\<close>); and
  a worker has returned only if the queue is empty (\<open>drained\<close>).
\<close>

definition quiet :: "pool \<Rightarrow> bool" where
  "quiet p = (handler p = Waiting \<and> list_all (\<lambda>b. \<not> b) (stops p)
              \<and> length (stops p) = length (workers p))"

fun held :: "(Certificate \<Rightarrow> 64 word) \<Rightarrow> worker \<Rightarrow> 64 word" where
  "held g (Selecting te) = g te"
| "held g w = 0"

definition conserved :: "(Certificate \<Rightarrow> 64 word) \<Rightarrow> 64 word \<Rightarrow> pool \<Rightarrow> bool" where
  "conserved g c p =
     (sum_list (map g (begun p)) + sum_list (map g (entries p))
        + sum_list (map (held g) (workers p)) = c)"

definition drained :: "pool \<Rightarrow> bool" where
  "drained p = (Returned \<in> set (workers p) \<longrightarrow> entries p = [])"

definition steady :: "(Certificate \<Rightarrow> 64 word) \<Rightarrow> 64 word \<Rightarrow> pool \<Rightarrow> bool" where
  "steady g c p = (quiet p \<and> conserved g c p \<and> drained p)"

text \<open>
  A bound on the steps that are left: \<open>worker_cost\<close> bounds those of a worker from its
  place in the code, and \<open>work_left\<close> adds those for the certificates still queued. A
  loop pass of \<^verbatim>\<open>processResults\<close> makes at most two additions.
\<close>

fun worker_cost :: "worker \<Rightarrow> nat" where
  "worker_cost Returned = 0"
| "worker_cost Receiving = 1"
| "worker_cost (Adding fs) = 2 + length fs"
| "worker_cost (Probing fp names results) = 5 + 3 * length names + 2 * length results"
| "worker_cost (Selecting te) = 6 + 3 * length (DNSNames te)"

definition work_left :: "pool \<Rightarrow> nat" where
  "work_left p =
     sum_list (map (\<lambda>cert. 7 + 3 * length (DNSNames cert)) (entries p))
       + sum_list (map worker_cost (workers p))"

subsection \<open>Example inputs\<close>

text \<open>
  Concrete probes and certificates on which the theorems below are evaluated. In them
  the identity stands for \<^verbatim>\<open>sha256.Sum256\<close> and rounds \<^verbatim>\<open>float64\<close> values.
\<close>

definition valid_result :: result where
  "valid_result = zero_result\<lparr>hostAvailable := True, certUsed := True\<rparr>"

definition timeout_error :: go_error where
  "timeout_error =
     \<lparr> dynamic_type = OpError True False OtherWrapped, Error = ''dial tcp: i/o timeout'' \<rparr>"

definition expired_error :: go_error where
  "expired_error =
     \<lparr> dynamic_type = CertificateInvalidError Expired,
       Error = ''x509: certificate has expired or is not yet valid'' \<rparr>"

definition reset_error :: go_error where
  "reset_error = \<lparr> dynamic_type = OtherError, Error = ''read: connection reset by peer'' \<rparr>"

definition stapled_conn :: ConnectionState where
  "stapled_conn =
     \<lparr> HandshakeComplete = True, PeerCertificates = [[1, 2], [3]], OCSPResponse = [7],
       SignedCertificateTimestamps = [] \<rparr>"

definition no_names_cert :: Certificate where
  "no_names_cert = \<lparr> Raw = [3], DNSNames = [] \<rparr>"

definition refused_error :: go_error where
  "refused_error =
     \<lparr> dynamic_type = OpError False False OtherWrapped,
       Error = ''dial tcp: connection refused'' \<rparr>"

definition two_names_cert :: Certificate where
  "two_names_cert = \<lparr> Raw = [3], DNSNames = [''a.example'', ''b.example''] \<rparr>"

text \<open>
  A network in which \<^verbatim>\<open>a.example\<close> presents the certificate with raw bytes \<open>[3]\<close> and
  every other name refuses the connection.
\<close>

definition example_dial :: "string \<Rightarrow> dial_result" where
  "example_dial name =
     (if name = ''a.example'' then DialConn stapled_conn else DialError refused_error)"

text \<open>
  Three runs over the queue of \<open>two_names_cert\<close> and \<open>no_names_cert\<close>: two workers
  interleaved to the end, one worker to the end, and one worker interrupted while it
  probes the first certificate.
\<close>

definition two_workers_schedule :: "event list" where
  "two_workers_schedule =
     [Work 0, Work 1, Work 0, Work 0, Work 1, Work 1, Work 0, Work 1, Work 0, Work 1, Work 1,
      Work 1, Work 0, Work 0, Work 0, Work 0, Work 0, Work 0]"

definition one_worker_schedule :: "event list" where
  "one_worker_schedule = replicate 17 (Work 0)"

definition interrupted_schedule :: "event list" where
  "interrupted_schedule =
     [Work 0, Work 0, Interrupt, Send, Work 0, Work 0, Work 0, Work 0, Work 0, Work 0, Work 0,
      Work 0, Work 0, Work 0, Send]"

definition two_workers_end :: pool where
  "two_workers_end =
     run id (\<lambda>t. example_dial) two_workers_schedule (begin_pool 2 [two_names_cert, no_names_cert])"

definition one_worker_end :: pool where
  "one_worker_end =
     run id (\<lambda>t. example_dial) one_worker_schedule (begin_pool 1 [two_names_cert, no_names_cert])"

definition interrupted_end :: pool where
  "interrupted_end =
     run id (\<lambda>t. example_dial) interrupted_schedule (begin_pool 1 [two_names_cert, no_names_cert])"

text \<open>The interrupted run after its first four events: the interrupt has been delivered.\<close>

definition interrupted_middle :: pool where
  "interrupted_middle =
     run id (\<lambda>t. example_dial) (take 4 interrupted_schedule)
       (begin_pool 1 [two_names_cert, no_names_cert])"

section \<open>Properties\<close>

subsection \<open>Counters and sequences of additions\<close>

lemma AddInt64_apply: "AddInt64 a d s f = (if f = a then s a + d else s f)"
  by (simp add: AddInt64_def)

lemma run_adds_Nil [simp]: "run_adds [] s = s"
  by (simp add: run_adds_def)

lemma run_adds_Cons [simp]: "run_adds (f # fs) s = run_adds fs (AddInt64 f 1 s)"
  by (simp add: run_adds_def)

lemma run_adds_append [simp]: "run_adds (fs @ gs) s = run_adds gs (run_adds fs s)"
  by (simp add: run_adds_def)

lemma run_adds_apply: "run_adds fs s f = s f + of_nat (count_list fs f)"
  by (induction fs arbitrary: s) (simp_all add: AddInt64_apply)

lemma count_Valid_Nil [simp]: "count_Valid [] = 0"
  by (simp add: count_Valid_def)

lemma count_Valid_Cons [simp]:
  "count_Valid (r # rs) = (if is_Valid (outcome_of r) then 1 else 0) + count_Valid rs"
  by (simp add: count_Valid_def)

lemma count_Valid_le: "count_Valid rs \<le> length rs"
  by (simp add: count_Valid_def)

subsection \<open>processResults and the classes\<close>

text \<open>
  One pass of the loop body on \<open>r\<close> makes the additions of the class of \<open>r\<close> and counts
  \<open>r\<close> as used exactly when its class is \<open>Valid\<close>.
\<close>

lemma loop_body:
  "processResults_loop (r # rs) used s =
     processResults_loop rs (if is_Valid (outcome_of r) then used + 1 else used)
       (run_adds (outcome_adds (outcome_of r)) s)"
  by (simp add: outcome_of_def Let_def)

lemma loop_single:
  "processResults_loop [r] used s =
     (if is_Valid (outcome_of r) then used + 1 else used,
      run_adds (outcome_adds (outcome_of r)) s)"
  by (simp only: loop_body processResults_loop.simps)

lemma processResults_loop_eq:
  "processResults_loop rs used s =
     (used + count_Valid rs, run_adds (concat (map (\<lambda>r. outcome_adds (outcome_of r)) rs)) s)"
proof (induction rs arbitrary: used s)
  case Nil
  show ?case by simp
next
  case (Cons r rs)
  show ?case
    unfolding loop_body Cons.IH by simp
qed

declare processResults_loop.simps [simp del]

lemma summarise_adds: "summarise used len s = run_adds (summary_adds used len) s"
  by (simp add: summarise_def summary_adds_def)

lemma processResults_eq: "processResults rs s = run_adds (processResults_adds rs) s"
  by (simp add: processResults_def processResults_loop_eq summarise_adds processResults_adds_def)

lemma count_outcome_adds:
  "f \<in> {CertsUnused, CertsPartiallyUsed, CertsTotallyUsed, processedCerts, processedNames}
     \<Longrightarrow> count_list (outcome_adds oc) f = 0"
  by (cases oc) auto

lemma count_concat_outcome_adds:
  "f \<in> {CertsUnused, CertsPartiallyUsed, CertsTotallyUsed, processedCerts, processedNames}
     \<Longrightarrow> count_list (concat (map (\<lambda>r. outcome_adds (outcome_of r)) rs)) f = 0"
  by (induction rs) (simp_all add: count_outcome_adds del: insert_iff)

lemma processResults_summary_apply:
  assumes "f \<in> {CertsUnused, CertsPartiallyUsed, CertsTotallyUsed, processedCerts, processedNames}"
  shows "processResults rs s f
           = s f + of_nat (count_list (summary_adds (count_Valid rs) (length rs)) f)"
  using count_concat_outcome_adds [OF assms, of rs]
  by (simp add: processResults_eq run_adds_apply processResults_adds_def)

text \<open>
  C1, as the code has it. With \<open>used\<close> the number of \<open>Valid\<close> results of a certificate
  and \<open>len\<close> the number of its results, \<^verbatim>\<open>processResults\<close> adds 1 to exactly one of the
  three certificate counters and leaves the other two alone: to \<^verbatim>\<open>CertsTotallyUsed\<close>
  when \<open>used = len\<close>, to \<^verbatim>\<open>CertsPartiallyUsed\<close> when \<open>0 < used < len\<close>, and to
  \<^verbatim>\<open>CertsUnused\<close> when \<open>used = 0\<close> and the certificate has at least one name. The
  three cases exclude each other and one of them always holds.
\<close>

theorem processResults_bucket:
  assumes "used = count_Valid results" and "len = length results"
    and "s' = processResults results s"
  shows "(used = len \<longrightarrow>
            s' CertsTotallyUsed = s CertsTotallyUsed + 1
            \<and> s' CertsPartiallyUsed = s CertsPartiallyUsed \<and> s' CertsUnused = s CertsUnused)
       \<and> (0 < used \<and> used < len \<longrightarrow>
            s' CertsPartiallyUsed = s CertsPartiallyUsed + 1
            \<and> s' CertsTotallyUsed = s CertsTotallyUsed \<and> s' CertsUnused = s CertsUnused)
       \<and> (used = 0 \<and> 0 < len \<longrightarrow>
            s' CertsUnused = s CertsUnused + 1
            \<and> s' CertsTotallyUsed = s CertsTotallyUsed
            \<and> s' CertsPartiallyUsed = s CertsPartiallyUsed)
       \<and> (used = len \<or> 0 < used \<and> used < len \<or> used = 0 \<and> 0 < len)"
  using assms count_Valid_le [of results]
  by (auto simp add: processResults_summary_apply summary_adds_def)

theorem processResults_bucket_witness:
  "count_Valid [valid_result, zero_result] = 1
   \<and> length [valid_result, zero_result] = 2
   \<and> processResults [valid_result, zero_result] zero_store CertsPartiallyUsed = 1
   \<and> processResults [valid_result, zero_result] zero_store CertsTotallyUsed = 0
   \<and> processResults [valid_result, zero_result] zero_store CertsUnused = 0"
  using processResults_bucket [of 1 "[valid_result, zero_result]" 2 _ zero_store, OF _ _ refl]
  by (simp add: valid_result_def zero_result_def zero_store_def outcome_of_def)

text \<open>
  C1 as stated fails on a certificate without names: there \<open>used = 0\<close>, yet
  \<^verbatim>\<open>CertsUnused\<close> stays as it was and \<^verbatim>\<open>CertsTotallyUsed\<close> is the counter that grows.
\<close>

theorem processResults_empty_counterexample:
  "count_Valid [] = 0
   \<and> processResults [] zero_store CertsUnused = zero_store CertsUnused
   \<and> processResults [] zero_store CertsTotallyUsed = zero_store CertsTotallyUsed + 1"
  by (simp add: processResults_def processResults_loop.simps summarise_def AddInt64_def)

subsection \<open>percent\<close>

lemma rounding_sign:
  assumes "rounding rnd" and "k \<noteq> 0"
  shows "(0 < rnd (real_of_int k)) = (0 < k)" and "rnd (real_of_int k) \<noteq> 0"
proof -
  from assms(2) have "1 \<le> \<bar>k\<bar>" by arith
  then have "real_of_int 1 \<le> real_of_int \<bar>k\<bar>" by (simp only: of_int_le_iff)
  then have "1 \<le> \<bar>real_of_int k\<bar>" by simp
  with assms(1) have sg: "sgn (rnd (real_of_int k)) = sgn (real_of_int k)"
    by (simp add: rounding_def)
  from assms(2) have "sgn (real_of_int k) \<noteq> 0" by (simp add: sgn_if)
  with sg show "rnd (real_of_int k) \<noteq> 0" by (metis sgn_0)
  from sg assms(2) show "(0 < rnd (real_of_int k)) = (0 < k)"
    by (metis of_int_0_less_iff sgn_1_pos)
qed

lemma float64_div_zero:
  "float64_div rnd (Finite a) (Finite 0)
     = (if a = 0 then NaN else if 0 < a then PosInf else NegInf)"
  by simp

lemma rounding_id: "rounding id"
  by (simp add: rounding_def)

text \<open>
  C2, as the code has it. \<^verbatim>\<open>percent\<close> has no test of its denominator. With a zero
  denominator the division is a \<^verbatim>\<open>float64\<close> division by zero, which does not panic;
  its value, and so the value of \<^verbatim>\<open>percent\<close>, is NaN when the numerator is zero too,
  and the infinity with the sign of the numerator otherwise. It is never 0.
\<close>

theorem percent_zero_denominator:
  assumes "rounding rnd"
  shows "percent rnd n 0 = (if n = 0 then NaN else if 0 < sint n then PosInf else NegInf)"
proof -
  have z: "rnd 0 = 0" using assms by (simp add: rounding_def)
  have t: "float64_of_int64 rnd 0 = Finite 0"
    by (simp add: float64_of_int64_def z)
  show ?thesis
  proof (cases "n = 0")
    case True
    then show ?thesis by (simp add: percent_def t)
  next
    case False
    then have nz: "sint n \<noteq> 0" by (simp add: signed_eq_0_iff)
    have n: "float64_of_int64 rnd n = Finite (rnd (real_of_int (sint n)))"
      by (simp only: float64_of_int64_def)
    from rounding_sign [OF assms nz] False show ?thesis
      unfolding percent_def t n float64_div_zero by (simp del: of_int_sint)
  qed
qed

theorem percent_zero_denominator_witness:
  "rounding id \<and> percent id 7 0 = PosInf \<and> percent id (- 7) 0 = NegInf"
  using percent_zero_denominator [OF rounding_id, of 7]
    percent_zero_denominator [OF rounding_id, of "- 7"] rounding_id
  by simp

text \<open>
  C2 as stated fails: with nothing processed the report calls \<^verbatim>\<open>percent(0, 0)\<close>, and
  that is NaN, not 0.
\<close>

theorem percent_zero_counterexample:
  "percent id 0 0 = NaN \<and> percent id 0 0 \<noteq> Finite 0"
  by (simp add: percent_def float64_of_int64_def)

subsection \<open>checkName\<close>

lemma checkName_fst:
  "fst (checkName sha256 dial name fp s) = checkName_result sha256 (dial name) fp"
  by (simp add: checkName_def)

lemma outcome_OpError:
  "outcome_of (checkName_OpError tmo tmp inner) =
     (if tmo \<or> tmp \<or> transient_DNSError inner then Skipped else Unavailable)"
  by (cases inner) (simp_all add: checkName_OpError_def outcome_of_def zero_result_def Let_def)

text \<open>
  C3. When the dial fails with a \<^verbatim>\<open>*net.OpError\<close>, the probe is \<open>Skipped\<close>, and counted
  in \<^verbatim>\<open>NamesSkipped\<close> alone, if the error reports a timeout or a temporary failure or
  wraps a \<^verbatim>\<open>*net.DNSError\<close> that does; otherwise it is \<open>Unavailable\<close>, and counted in
  \<^verbatim>\<open>NamesUnavailable\<close> alone. The branch has no third outcome.
\<close>

theorem checkName_network_failure:
  assumes "dial name = DialError err"
    and "dynamic_type err = OpError netTimeout netTemporary inner"
    and "r = fst (checkName sha256 dial name fp s)"
  shows "if netTimeout \<or> netTemporary \<or> transient_DNSError inner
         then outcome_of r = Skipped
              \<and> processResults_loop [r] used s' = (used, AddInt64 NamesSkipped 1 s')
         else outcome_of r = Unavailable
              \<and> processResults_loop [r] used s' = (used, AddInt64 NamesUnavailable 1 s')"
proof -
  have "r = checkName_OpError netTimeout netTemporary inner"
    using assms by (simp add: checkName_fst checkName_result_def)
  then show ?thesis
    by (simp add: loop_single outcome_OpError)
qed

theorem checkName_network_failure_witness:
  "dynamic_type timeout_error = OpError True False OtherWrapped
   \<and> outcome_of (fst (checkName id (\<lambda>name. DialError timeout_error) ''a.example'' [3] zero_store))
       = Skipped
   \<and> processResults_loop
       [fst (checkName id (\<lambda>name. DialError timeout_error) ''a.example'' [3] zero_store)] 0 zero_store
       = (0, AddInt64 NamesSkipped 1 zero_store)"
  using checkName_network_failure [of "\<lambda>name. DialError timeout_error" "''a.example''"
      timeout_error True False OtherWrapped _ id "[3]" zero_store 0 zero_store, OF refl _ refl]
  by (simp add: timeout_error_def)

lemma outcome_error: "outcome_of (checkName_error err) = priority_chain err"
  by (cases "dynamic_type err")
     (simp_all add: checkName_error_def priority_chain_def outcome_of_def zero_result_def Let_def)

lemma result_not_OpError:
  "\<not> is_OpError (dynamic_type err) \<Longrightarrow>
     checkName_result sha256 (DialError err) fp = checkName_error err"
  by (cases "dynamic_type err") (simp_all add: checkName_result_def is_OpError_def)

lemma not_Valid_priority_chain: "\<not> is_Valid (priority_chain err)"
  by (simp add: priority_chain_def)

text \<open>
  C4. When the dial fails with an error that is not a \<^verbatim>\<open>*net.OpError\<close>, the class of the
  probe is the first line of the chain that applies: \<open>TLSError\<close> for a text that starts
  with \<^verbatim>\<open>tls:\<close> or is \<^verbatim>\<open>EOF\<close>, else \<open>IncompleteChain\<close> for an unknown authority, else
  \<open>WrongCert\<close> for a hostname error, else for an invalid certificate \<open>ExpiredCert\<close> or
  \<open>SelfSignedCert\<close> by its reason, and \<open>MiscInvalidCert\<close> for what is left.
  \<^verbatim>\<open>processResults\<close> counts the probe under that class and not as used.
\<close>

theorem checkName_priority_chain:
  assumes "dial name = DialError err" and "\<not> is_OpError (dynamic_type err)"
    and "r = fst (checkName sha256 dial name fp s)"
  shows "outcome_of r =
           (if prefix ''tls:'' (Error err) \<or> Error err = ''EOF'' then TLSError
            else if dynamic_type err = UnknownAuthorityError then IncompleteChain
            else if dynamic_type err = HostnameError then WrongCert
            else if dynamic_type err = CertificateInvalidError Expired then ExpiredCert
            else if dynamic_type err = CertificateInvalidError NotAuthorizedToSign
              then SelfSignedCert
            else MiscInvalidCert)
       \<and> processResults_loop [r] used s' = (used, run_adds (outcome_adds (outcome_of r)) s')"
proof -
  have r: "r = checkName_error err"
    using assms by (simp add: checkName_fst result_not_OpError)
  have "outcome_of r = priority_chain err"
    by (simp add: r outcome_error)
  then show ?thesis
    using not_Valid_priority_chain [of err]
    by (simp add: loop_single) (simp add: priority_chain_def)
qed

theorem checkName_priority_chain_witness:
  "\<not> is_OpError (dynamic_type expired_error)
   \<and> outcome_of (fst (checkName id (\<lambda>name. DialError expired_error) ''a.example'' [3] zero_store))
       = ExpiredCert
   \<and> processResults_loop
       [fst (checkName id (\<lambda>name. DialError expired_error) ''a.example'' [3] zero_store)] 0 zero_store
       = (0, AddInt64 NamesUsingExpiredCert 1 zero_store)"
  using checkName_priority_chain [of "\<lambda>name. DialError expired_error" "''a.example''"
      expired_error _ id "[3]" zero_store 0 zero_store, OF refl _ refl]
  by (simp add: expired_error_def is_OpError_def)

lemma peer_loop_iff:
  "peer_loop sha256 fp peers = (\<exists>peer \<in> set peers. sha256 peer = fp)"
  by (induction peers) auto

lemma outcome_conn:
  "HandshakeComplete state \<Longrightarrow>
     outcome_of (checkName_conn sha256 state fp) =
       (if peer_loop sha256 fp (PeerCertificates state)
        then Valid (OCSPResponse state \<noteq> []) (SignedCertificateTimestamps state \<noteq> [])
        else CertNotPresented)"
  by (simp add: checkName_conn_def outcome_of_def zero_result_def Let_def)

text \<open>
  C5. When the dial gives a connection whose handshake is complete: if some
  certificate of the peer has the expected SHA-256 fingerprint, the probe is \<open>Valid\<close>,
  its first flag saying whether an OCSP response is stapled and its second whether
  signed certificate timestamps came, each flag whatever the other; the probe is counted
  as used, and in \<^verbatim>\<open>NamesWithOCSPStapled\<close> and \<^verbatim>\<open>NamesServingSCTs\<close> by its flags. If
  no certificate of the peer matches, the probe is \<open>CertNotPresented\<close>.
\<close>

theorem checkName_handshake_complete:
  assumes "dial name = DialConn state" and "HandshakeComplete state"
    and "r = fst (checkName sha256 dial name fp s)"
  shows "if \<exists>peer \<in> set (PeerCertificates state). sha256 peer = fp
         then outcome_of r
                = Valid (OCSPResponse state \<noteq> []) (SignedCertificateTimestamps state \<noteq> [])
              \<and> processResults_loop [r] used s' =
                  (used + 1,
                   run_adds
                     ((if OCSPResponse state \<noteq> [] then [NamesWithOCSPStapled] else [])
                      @ (if SignedCertificateTimestamps state \<noteq> [] then [NamesServingSCTs]
                         else [])) s')
         else outcome_of r = CertNotPresented
              \<and> processResults_loop [r] used s' = (used, AddInt64 NamesCertNotUsed 1 s')"
proof -
  have r: "r = checkName_conn sha256 state fp"
    using assms by (simp add: checkName_fst checkName_result_def)
  show ?thesis
    unfolding peer_loop_iff [symmetric]
    by (simp add: loop_single r outcome_conn [OF assms(2)])
qed

theorem checkName_handshake_complete_witness:
  "HandshakeComplete stapled_conn
   \<and> outcome_of (fst (checkName id (\<lambda>name. DialConn stapled_conn) ''a.example'' [3] zero_store))
       = Valid True False
   \<and> processResults_loop
       [fst (checkName id (\<lambda>name. DialConn stapled_conn) ''a.example'' [3] zero_store)] 0 zero_store
       = (1, AddInt64 NamesWithOCSPStapled 1 zero_store)
   \<and> outcome_of (fst (checkName id (\<lambda>name. DialConn stapled_conn) ''a.example'' [4] zero_store))
       = CertNotPresented"
  using checkName_handshake_complete [of "\<lambda>name. DialConn stapled_conn" "''a.example''"
      stapled_conn _ id "[3]" zero_store 0 zero_store, OF refl _ refl]
    checkName_handshake_complete [of "\<lambda>name. DialConn stapled_conn" "''a.example''"
      stapled_conn _ id "[4]" zero_store 0 zero_store, OF refl _ refl]
  by (simp add: stapled_conn_def)

lemma checkName_error_available: "hostAvailable (checkName_error err)"
  by (cases "dynamic_type err") (simp_all add: checkName_error_def zero_result_def Let_def)

lemma checkName_error_misc:
  assumes "\<not> (prefix ''tls:'' (Error err) \<or> Error err = ''EOF'')"
    and "dynamic_type err \<noteq> UnknownAuthorityError"
    and "dynamic_type err \<noteq> HostnameError"
    and "dynamic_type err \<noteq> CertificateInvalidError Expired"
    and "dynamic_type err \<noteq> CertificateInvalidError NotAuthorizedToSign"
  shows "checkName_error err = zero_result\<lparr>hostAvailable := True, usingMiscInvalidCert := True\<rparr>"
  using assms by (cases "dynamic_type err") (simp_all add: checkName_error_def Let_def)

text \<open>
  C10. For a dial error that is not a \<^verbatim>\<open>*net.OpError\<close>, \<^verbatim>\<open>checkName\<close> sets
  \<^verbatim>\<open>hostAvailable\<close>; and when the text of the error neither starts with \<^verbatim>\<open>tls:\<close> nor
  is \<^verbatim>\<open>EOF\<close>, and the error is no unknown-authority error, no hostname error and no
  invalid-certificate error with reason \<open>Expired\<close> or \<open>NotAuthorizedToSign\<close>, the probe is
  \<open>MiscInvalidCert\<close> and counted in \<^verbatim>\<open>NamesUsingMiscInvalidCert\<close>: also when the error
  has nothing to do with the validity of a certificate.
\<close>

theorem checkName_catch_all:
  assumes "dial name = DialError err" and "\<not> is_OpError (dynamic_type err)"
    and "r = fst (checkName sha256 dial name fp s)"
  shows "hostAvailable r
       \<and> (\<not> (prefix ''tls:'' (Error err) \<or> Error err = ''EOF'')
          \<and> dynamic_type err \<noteq> UnknownAuthorityError
          \<and> dynamic_type err \<noteq> HostnameError
          \<and> dynamic_type err \<noteq> CertificateInvalidError Expired
          \<and> dynamic_type err \<noteq> CertificateInvalidError NotAuthorizedToSign
          \<longrightarrow> outcome_of r = MiscInvalidCert
              \<and> processResults_loop [r] used s' = (used, AddInt64 NamesUsingMiscInvalidCert 1 s'))"
proof -
  have r: "r = checkName_error err"
    using assms by (simp add: checkName_fst result_not_OpError)
  have "outcome_of (zero_result\<lparr>hostAvailable := True, usingMiscInvalidCert := True\<rparr>)
          = MiscInvalidCert"
    by (simp add: outcome_of_def zero_result_def)
  then show ?thesis
    unfolding r using checkName_error_available [of err] checkName_error_misc [of err]
    by (auto simp add: loop_single)
qed

theorem checkName_catch_all_witness:
  "\<not> is_OpError (dynamic_type reset_error)
   \<and> \<not> (prefix ''tls:'' (Error reset_error) \<or> Error reset_error = ''EOF'')
   \<and> dynamic_type reset_error = OtherError
   \<and> hostAvailable (fst (checkName id (\<lambda>name. DialError reset_error) ''a.example'' [3] zero_store))
   \<and> outcome_of (fst (checkName id (\<lambda>name. DialError reset_error) ''a.example'' [3] zero_store))
       = MiscInvalidCert
   \<and> processResults_loop
       [fst (checkName id (\<lambda>name. DialError reset_error) ''a.example'' [3] zero_store)] 0 zero_store
       = (0, AddInt64 NamesUsingMiscInvalidCert 1 zero_store)"
  using checkName_catch_all [of "\<lambda>name. DialError reset_error" "''a.example''"
      reset_error _ id "[3]" zero_store 0 zero_store, OF refl _ refl]
  by (simp add: reset_error_def is_OpError_def)

subsection \<open>checkCert\<close>

text \<open>
  C9. For a certificate without DNS names, \<^verbatim>\<open>checkCert\<close> probes nothing and counts no
  name: all it does is add 1 to \<^verbatim>\<open>CertsTotallyUsed\<close>, because \<open>used = len = 0\<close> is the
  first test, and then 1 to \<^verbatim>\<open>processedCerts\<close>. \<^verbatim>\<open>CertsUnused\<close> stays as it was.
\<close>

theorem checkCert_no_names:
  assumes "DNSNames cert = []"
  shows "checkCert sha256 dial cert s = AddInt64 processedCerts 1 (AddInt64 CertsTotallyUsed 1 s)
       \<and> checkCert sha256 dial cert s CertsUnused = s CertsUnused
       \<and> checkCert sha256 dial cert s processedNames = s processedNames"
  using assms
  by (simp add: checkCert_def processResults_def processResults_loop.simps summarise_def
      AddInt64_apply)

theorem checkCert_no_names_witness:
  "DNSNames no_names_cert = []
   \<and> checkCert id (\<lambda>name. DialError reset_error) no_names_cert zero_store CertsTotallyUsed = 1
   \<and> checkCert id (\<lambda>name. DialError reset_error) no_names_cert zero_store CertsUnused = 0"
  using checkCert_no_names [of no_names_cert id "\<lambda>name. DialError reset_error" zero_store]
  by (simp add: no_names_cert_def AddInt64_apply zero_store_def)

subsection \<open>The worker pool\<close>

text \<open>
  Sums over the workers of a pool change at one place when one worker moves.
\<close>

lemma weigh_simps [simp]:
  "weigh wt [] = 0"
  "weigh wt (f # fs) = wt f + weigh wt fs"
  "weigh wt (fs @ gs) = weigh wt fs + weigh wt gs"
  by (simp_all add: weigh_def)

lemma weigh_replicate: "weigh wt (replicate n f) = of_nat n * wt f"
  by (induction n) (simp_all add: algebra_simps)

lemma sum_list_map_update:
  fixes g :: "'a \<Rightarrow> 64 word"
  shows "i < length ws \<Longrightarrow> sum_list (map g (ws[i := w])) = sum_list (map g ws) - g (ws ! i) + g w"
proof (induction ws arbitrary: i)
  case Nil
  then show ?case by simp
next
  case (Cons a ws)
  then show ?case by (cases i) simp_all
qed

lemma sum_list_map_zero:
  fixes g :: "'a \<Rightarrow> 64 word"
  shows "(\<And>x. x \<in> set xs \<Longrightarrow> g x = 0) \<Longrightarrow> sum_list (map g xs) = 0"
  by (induction xs) simp_all

lemma set_worker_simps [simp]:
  "workers (set_worker i w p) = (workers p)[i := w]"
  "counters (set_worker i w p) = counters p"
  "entries (set_worker i w p) = entries p"
  "stops (set_worker i w p) = stops p"
  "handler (set_worker i w p) = handler p"
  "clock (set_worker i w p) = clock p"
  "begun (set_worker i w p) = begun p"
  by (simp_all add: set_worker_def)

lemma owed_set_worker:
  "i < length (workers p) \<Longrightarrow>
     owed sha256 dial wt (set_worker i w p)
       = owed sha256 dial wt p - weigh wt (pending sha256 dial (workers p ! i))
           + weigh wt (pending sha256 dial w)"
  by (simp add: owed_def sum_list_map_update)

lemma owed_cong [simp]:
  "owed sha256 dial wt (p\<lparr>counters := s\<rparr>) = owed sha256 dial wt p"
  "owed sha256 dial wt (p\<lparr>entries := es\<rparr>) = owed sha256 dial wt p"
  "owed sha256 dial wt (p\<lparr>stops := ss\<rparr>) = owed sha256 dial wt p"
  "owed sha256 dial wt (p\<lparr>handler := h\<rparr>) = owed sha256 dial wt p"
  "owed sha256 dial wt (p\<lparr>clock := c\<rparr>) = owed sha256 dial wt p"
  "owed sha256 dial wt (p\<lparr>begun := b\<rparr>) = owed sha256 dial wt p"
  by (simp_all add: owed_def)

lemma due_cong [simp]:
  "due sha256 dial wt (p\<lparr>counters := s\<rparr>) = due sha256 dial wt p"
  "due sha256 dial wt (p\<lparr>entries := es\<rparr>) = due sha256 dial wt p"
  "due sha256 dial wt (p\<lparr>stops := ss\<rparr>) = due sha256 dial wt p"
  "due sha256 dial wt (p\<lparr>handler := h\<rparr>) = due sha256 dial wt p"
  "due sha256 dial wt (p\<lparr>clock := c\<rparr>) = due sha256 dial wt p"
  "due sha256 dial wt (p\<lparr>workers := ws\<rparr>) = due sha256 dial wt p"
  "due sha256 dial wt (set_worker i w p) = due sha256 dial wt p"
  "due sha256 dial wt (p\<lparr>begun := begun p @ [cert]\<rparr>)
     = due sha256 dial wt p + weigh wt (cert_adds sha256 dial cert)"
  by (simp_all add: due_def)

text \<open>
  The invariant of a run. A settled pool stays settled with every step, if the reading
  \<open>m\<close> observes the weight and either the network answers as \<open>dial\<close> at the time of the
  step or the weight is blind to what the probes find. The step of a worker moves weight
  from what it owes to the counters; the call of \<^verbatim>\<open>checkCert\<close> adds what the
  certificate will cost to both sides.
\<close>

lemma worker_step_settled:
  assumes obs: "observes m wt"
    and net: "net (clock p) = dial \<or> blind wt"
    and i: "i < length (workers p)"
    and inv: "settled sha256 dial m wt p"
  shows "settled sha256 dial m wt (worker_step sha256 net i p)"
proof (cases "workers p ! i")
  case Receiving
  then show ?thesis
    using inv i by (cases "entries p") (simp_all add: worker_step_def settled_def owed_set_worker)
next
  case (Selecting te)
  then show ?thesis
    using inv i by (simp add: worker_step_def settled_def owed_set_worker cert_adds_def)
next
  case (Probing fp names results)
  show ?thesis
  proof (cases names)
    case Nil
    with Probing show ?thesis
      using inv i by (simp add: worker_step_def settled_def owed_set_worker)
  next
    case (Cons name rest)
    let ?r = "checkName_result sha256 (net (clock p) name) fp"
    let ?q = "checkName_result sha256 (dial name) fp"
    let ?tl = "map (\<lambda>name. checkName_result sha256 (dial name) fp) rest"
    have same: "weigh wt (processResults_adds (results @ ?r # ?tl))
                  = weigh wt (processResults_adds (results @ ?q # ?tl))"
      using net
    proof
      assume "net (clock p) = dial"
      then show ?thesis by simp
    next
      assume "blind wt"
      then show ?thesis by (simp add: blind_def)
    qed
    have m: "m (AddInt64 processedNames 1 (counters p)) = m (counters p) + wt processedNames"
      using obs by (simp add: observes_def)
    show ?thesis
    proof -
      have w': "worker_step sha256 net i p =
                  set_worker i (Probing fp rest (results @ [?r]))
                    (p\<lparr>counters := AddInt64 processedNames 1 (counters p)\<rparr>)"
        using Probing Cons by (simp add: worker_step_def checkName_def)
      have new: "weigh wt (pending sha256 dial (Probing fp rest (results @ [?r])))
                   = weigh wt (replicate (length rest) processedNames)
                     + weigh wt (processResults_adds (results @ ?r # ?tl)) + wt processedCerts"
        by simp
      have old: "weigh wt (pending sha256 dial (workers p ! i))
                   = wt processedNames + weigh wt (replicate (length rest) processedNames)
                     + weigh wt (processResults_adds (results @ ?q # ?tl)) + wt processedCerts"
        by (simp add: Probing Cons)
      have "owed sha256 dial wt (worker_step sha256 net i p)
              = owed sha256 dial wt p - weigh wt (pending sha256 dial (workers p ! i))
                + weigh wt (pending sha256 dial (Probing fp rest (results @ [?r])))"
        using i by (simp add: w' owed_set_worker)
      then have o: "owed sha256 dial wt (worker_step sha256 net i p)
                 = owed sha256 dial wt p - wt processedNames"
        unfolding new old same by simp
      have c: "m (counters (worker_step sha256 net i p)) = m (counters p) + wt processedNames"
        using Probing Cons by (simp add: worker_step_def checkName_def m)
      have d: "due sha256 dial wt (worker_step sha256 net i p) = due sha256 dial wt p"
        using Probing Cons by (simp add: worker_step_def checkName_def)
      show ?thesis
        using inv unfolding settled_def o c d by simp
    qed
  qed
next
  case (Adding fs)
  show ?thesis
  proof (cases fs)
    case Nil
    with Adding show ?thesis
      using inv i by (simp add: worker_step_def settled_def owed_set_worker)
  next
    case (Cons f rest)
    have m: "m (AddInt64 f 1 (counters p)) = m (counters p) + wt f"
      using obs by (simp add: observes_def)
    show ?thesis
      using inv i Adding Cons
      by (simp add: worker_step_def settled_def owed_set_worker m)
  qed
next
  case Returned
  then show ?thesis
    using inv by (simp add: worker_step_def)
qed

lemma step_settled:
  assumes "observes m wt" and "net (clock p) = dial \<or> blind wt"
    and "settled sha256 dial m wt p"
  shows "settled sha256 dial m wt (step sha256 net e p)"
proof (cases e)
  case (Work i)
  then show ?thesis
    using worker_step_settled [where net = net and p = p and dial = dial and i = i, OF assms(1,2) _ assms(3)] assms(3)
    by (simp add: step_def Let_def settled_def)
next
  case Interrupt
  then show ?thesis
    using assms(3) by (simp add: step_def Let_def settled_def)
next
  case Send
  then show ?thesis
    using assms(3) by (cases "handler p") (simp_all add: step_def Let_def settled_def handler_step_def)
qed

lemma run_settled:
  assumes "observes m wt" and "(\<forall>t. net t = dial) \<or> blind wt"
    and "settled sha256 dial m wt p"
  shows "settled sha256 dial m wt (run sha256 net sched p)"
  using assms(3)
proof (induction sched arbitrary: p)
  case Nil
  then show ?case by (simp add: run_def)
next
  case (Cons e sched)
  have "net (clock p) = dial \<or> blind wt" using assms(2) by auto
  from step_settled [where net = net and p = p and dial = dial, OF assms(1) this Cons.prems]
  have "settled sha256 dial m wt (step sha256 net e p)" .
  from Cons.IH [OF this] show ?case by (simp add: run_def)
qed

lemma begin_settled:
  assumes "m zero_store = 0"
  shows "settled sha256 dial m wt (begin_pool n certs)"
  using assms by (simp add: settled_def begin_pool_def owed_def due_def sum_list_replicate)

lemma owed_all_returned:
  assumes "all_returned p"
  shows "owed sha256 dial wt p = 0"
proof -
  have "weigh wt (pending sha256 dial w) = 0" if "w \<in> set (workers p)" for w
  proof -
    from assms that have "w = Returned"
      by (simp add: all_returned_def list_all_iff)
    then show ?thesis by simp
  qed
  then show ?thesis
    unfolding owed_def by (rule sum_list_map_zero)
qed

text \<open>
  The weights of the additions of \<^verbatim>\<open>processResults\<close> and of a whole certificate, for
  weights that ignore the name counters and treat the three certificate counters alike.
\<close>

lemma weigh_only: "weigh (only f) fs = of_nat (count_list fs f)"
  by (induction fs) (simp_all add: only_def)

lemma weigh_concat_outcome_adds:
  assumes "names_free wt"
  shows "weigh wt (concat (map (\<lambda>r. outcome_adds (outcome_of r)) rs)) = 0"
  using assms by (induction rs) (simp_all add: names_free_def)

lemma weigh_processResults_adds:
  assumes "names_free wt"
  shows "weigh wt (processResults_adds rs) = weigh wt (summary_adds (count_Valid rs) (length rs))"
  by (simp add: processResults_adds_def weigh_concat_outcome_adds [OF assms])

lemma summary_adds_cases:
  "used \<le> len \<Longrightarrow>
     summary_adds used len = [CertsTotallyUsed] \<or> summary_adds used len = [CertsPartiallyUsed]
     \<or> summary_adds used len = [CertsUnused]"
  by (auto simp add: summary_adds_def)

lemma weigh_summary_adds:
  assumes "wt CertsTotallyUsed = c" and "wt CertsPartiallyUsed = c" and "wt CertsUnused = c"
  shows "weigh wt (summary_adds (count_Valid rs) (length rs)) = c"
  using summary_adds_cases [OF count_Valid_le, of rs] assms by auto

lemma names_free_only:
  "f \<in> {CertsUnused, CertsPartiallyUsed, CertsTotallyUsed, processedCerts, processedNames}
     \<Longrightarrow> names_free (only f)"
  unfolding names_free_def
proof
  fix oc
  assume "f \<in> {CertsUnused, CertsPartiallyUsed, CertsTotallyUsed, processedCerts, processedNames}"
  then show "weigh (only f) (outcome_adds oc) = 0"
    by (cases oc) (auto simp add: only_def)
qed

lemma names_free_summary_weight: "names_free summary_weight"
  unfolding names_free_def
proof
  fix oc
  show "weigh summary_weight (outcome_adds oc) = 0"
    by (cases oc) (simp_all add: summary_weight_def)
qed

lemma names_free_balance_weight: "names_free balance_weight"
  unfolding names_free_def
proof
  fix oc
  show "weigh balance_weight (outcome_adds oc) = 0"
    by (cases oc) (simp_all add: balance_weight_def summary_weight_def only_def)
qed

lemma weigh_processResults_adds_const:
  assumes "names_free wt"
    and "wt CertsTotallyUsed = c" and "wt CertsPartiallyUsed = c" and "wt CertsUnused = c"
  shows "weigh wt (processResults_adds rs) = c"
  unfolding weigh_processResults_adds [OF assms(1)]
  by (rule weigh_summary_adds [OF assms(2,3,4)])

lemma blindI:
  assumes "names_free wt"
    and "wt CertsTotallyUsed = c" and "wt CertsPartiallyUsed = c" and "wt CertsUnused = c"
  shows "blind wt"
  unfolding blind_def
  by (simp add: weigh_processResults_adds_const [OF assms])

lemma weigh_cert_adds:
  assumes "names_free wt"
    and "wt CertsTotallyUsed = c" and "wt CertsPartiallyUsed = c" and "wt CertsUnused = c"
  shows "weigh wt (cert_adds sha256 dial cert)
           = of_nat (length (DNSNames cert)) * wt processedNames + c + wt processedCerts"
  unfolding cert_adds_def pending.simps weigh_simps weigh_processResults_adds_const [OF assms]
  by (simp add: weigh_replicate)

lemma due_const:
  assumes "\<And>cert. weigh wt (cert_adds sha256 dial cert) = c"
  shows "due sha256 dial wt p = of_nat (length (begun p)) * c"
  unfolding due_def by (induction "begun p" arbitrary: p) (simp_all add: assms sum_list_replicate map_replicate_const)

lemma observes_only: "observes (\<lambda>s. s f) (only f)"
  by (simp add: observes_def only_def AddInt64_apply)

lemma observes_summary: "observes summary_total summary_weight"
  unfolding observes_def
proof (intro allI)
  fix f s
  show "summary_total (AddInt64 f 1 s) = summary_total s + summary_weight f"
    by (cases f) (simp_all add: summary_total_def summary_weight_def AddInt64_apply)
qed

lemma observes_balance:
  "observes (\<lambda>s. summary_total s - s processedCerts) balance_weight"
  using observes_summary observes_only [of processedCerts]
  by (simp add: observes_def balance_weight_def)

lemma blind_balance: "blind balance_weight"
  by (rule blindI [OF names_free_balance_weight, of 1])
     (simp_all add: balance_weight_def summary_weight_def only_def)

lemma blind_summary: "blind summary_weight"
  by (rule blindI [OF names_free_summary_weight, of 1]) (simp_all add: summary_weight_def)

lemma blind_only:
  "f = processedCerts \<or> f = processedNames \<Longrightarrow> blind (only f)"
  by (rule blindI [of _ 0]) (auto simp add: names_free_only only_def)

lemma run_to_end:
  assumes "observes m wt" and "(\<forall>t. net t = dial) \<or> blind wt" and "m zero_store = 0"
    and "all_returned (run sha256 net sched (begin_pool n certs))"
  shows "m (counters (run sha256 net sched (begin_pool n certs)))
           = due sha256 dial wt (run sha256 net sched (begin_pool n certs))"
proof -
  have "settled sha256 dial m wt (run sha256 net sched (begin_pool n certs))"
    by (rule run_settled [OF assms(1,2) begin_settled [where m = m, OF assms(3)]])
  then show ?thesis
    by (simp add: settled_def owed_all_returned [OF assms(4)])
qed

text \<open>
  \<^verbatim>\<open>checkCert\<close>, run by one thread of control, makes the additions of \<open>cert_adds\<close>;
  among them is exactly one to the three certificate counters.
\<close>

lemma checkCert_loop_eq:
  "checkCert_loop sha256 dial fp names results s =
     (results @ map (\<lambda>name. checkName_result sha256 (dial name) fp) names,
      run_adds (replicate (length names) processedNames) s)"
  by (induction names arbitrary: results s) (simp_all add: checkName_def)

lemma checkCert_eq: "checkCert sha256 dial cert s = run_adds (cert_adds sha256 dial cert) s"
  by (simp add: checkCert_def checkCert_loop_eq processResults_eq cert_adds_def)

lemma checkCert_apply:
  "checkCert sha256 dial cert s f = s f + weigh (only f) (cert_adds sha256 dial cert)"
  by (simp add: checkCert_eq run_adds_apply weigh_only)

lemma checkCert_one_bucket:
  "\<exists>b \<in> {CertsUnused, CertsPartiallyUsed, CertsTotallyUsed}.
     \<forall>f \<in> {CertsUnused, CertsPartiallyUsed, CertsTotallyUsed}.
       checkCert sha256 dial cert s f = s f + (if f = b then 1 else 0)"
proof -
  let ?rs = "map (\<lambda>name. checkName_result sha256 (dial name) (sha256 (Raw cert))) (DNSNames cert)"
  have w: "weigh (only f) (cert_adds sha256 dial cert)
             = weigh (only f) (summary_adds (count_Valid ?rs) (length ?rs))"
    if "f \<in> {CertsUnused, CertsPartiallyUsed, CertsTotallyUsed}" for f
  proof -
    from that have nf: "names_free (only f)" by (intro names_free_only) auto
    from that show ?thesis
      unfolding cert_adds_def pending.simps weigh_simps weigh_processResults_adds [OF nf]
      by (auto simp add: weigh_replicate only_def)
  qed
  from summary_adds_cases [OF count_Valid_le, of ?rs]
  show ?thesis
    by (elim disjE) (simp_all add: checkCert_apply w only_def)
qed

text \<open>The three example runs end with every worker returned.\<close>

lemma two_workers_returned: "all_returned two_workers_end"
  by code_simp

lemma one_worker_returned: "all_returned one_worker_end"
  by code_simp

lemma interrupted_returned: "all_returned interrupted_end"
  by code_simp

text \<open>
  C6. When every worker has returned, after any schedule and any answers of the
  network, with or without an interrupt, the three certificate counters add up to
  \<^verbatim>\<open>processedCerts\<close>. And the three exclude each other for each certificate: a call
  of \<^verbatim>\<open>checkCert\<close> adds 1 to one of them and nothing to the other two.
\<close>

theorem summary_counters_sum:
  assumes "p = run sha256 net sched (begin_pool n certs)" and "all_returned p"
  shows "counters p CertsUnused + counters p CertsPartiallyUsed + counters p CertsTotallyUsed
           = counters p processedCerts
       \<and> (\<exists>b \<in> {CertsUnused, CertsPartiallyUsed, CertsTotallyUsed}.
            \<forall>f \<in> {CertsUnused, CertsPartiallyUsed, CertsTotallyUsed}.
              checkCert sha256 dial cert s f = s f + (if f = b then 1 else 0))"
proof -
  have cert: "weigh balance_weight (cert_adds sha256 dial c) = 0" for c
    by (simp add: weigh_cert_adds [OF names_free_balance_weight, of 1]
        balance_weight_def summary_weight_def only_def)
  have "summary_total (counters p) - counters p processedCerts
          = due sha256 dial balance_weight p"
    unfolding assms(1)
    by (rule run_to_end [OF observes_balance])
       (use assms in \<open>simp_all add: blind_balance summary_total_def zero_store_def\<close>)
  also have "\<dots> = 0"
    by (simp add: due_const [of balance_weight sha256 _ 0, OF cert])
  finally show ?thesis
    using checkCert_one_bucket [of sha256 dial cert s] by (simp add: summary_total_def)
qed

theorem summary_counters_sum_witness:
  "all_returned two_workers_end
   \<and> counters two_workers_end CertsUnused + counters two_workers_end CertsPartiallyUsed
       + counters two_workers_end CertsTotallyUsed = counters two_workers_end processedCerts
   \<and> counters two_workers_end processedCerts = 2
   \<and> all_returned interrupted_end
   \<and> counters interrupted_end CertsUnused + counters interrupted_end CertsPartiallyUsed
       + counters interrupted_end CertsTotallyUsed = counters interrupted_end processedCerts
   \<and> counters interrupted_end processedCerts = 1"
proof -
  have "counters two_workers_end processedCerts = 2"
    and "counters interrupted_end processedCerts = 1"
    by code_simp+
  with summary_counters_sum [OF two_workers_end_def two_workers_returned]
    summary_counters_sum [OF interrupted_end_def interrupted_returned]
    two_workers_returned interrupted_returned
  show ?thesis by blast
qed

text \<open>
  A step of one worker leaves the others where they are, and a worker inside
  \<^verbatim>\<open>checkCert\<close> moves on inside it or back to the head of its loop.
\<close>

lemma worker_step_other:
  "j \<noteq> i \<Longrightarrow> workers (worker_step sha256 net j p) ! i = workers p ! i"
  by (simp add: worker_step_def split: worker.split list.split prod.split)

lemma worker_step_length [simp]:
  "length (workers (worker_step sha256 net j p)) = length (workers p)"
  by (simp add: worker_step_def split: worker.split list.split prod.split)

lemma step_length [simp]: "length (workers (step sha256 net e p)) = length (workers p)"
  by (cases e) (simp_all add: step_def Let_def handler_step_def split: handler.split)

lemma run_length [simp]: "length (workers (run sha256 net sched p)) = length (workers p)"
  unfolding run_def by (induction sched arbitrary: p) simp_all

lemma mid_certificate_own_step:
  assumes "i < length (workers p)" and "mid_certificate (workers p ! i)"
  shows "workers (worker_step sha256 net i p) ! i \<noteq> Returned"
    and "stops (worker_step sha256 net i p) = stops p"
  using assms
  by (cases "workers p ! i"; simp add: worker_step_def split: list.split prod.split)+

lemma mid_certificate_step:
  assumes "i < length (workers p)" and "mid_certificate (workers p ! i)"
  shows "workers (step sha256 net e p) ! i \<noteq> Returned"
proof (cases e)
  case (Work j)
  show ?thesis
  proof (cases "j = i")
    case True
    with Work assms mid_certificate_own_step(1) [OF assms, of sha256 net]
    show ?thesis by (simp add: step_def Let_def)
  next
    case False
    with Work assms worker_step_other [OF False, of sha256 net p]
    show ?thesis by (auto simp add: step_def Let_def)
  qed
next
  case Interrupt
  with assms show ?thesis by (auto simp add: step_def Let_def)
next
  case Send
  with assms show ?thesis
    by (auto simp add: step_def Let_def handler_step_def split: handler.split)
qed

lemma sum_list_of_nat:
  "sum_list (map (\<lambda>x. (of_nat (g x) :: 64 word)) xs) = of_nat (sum_list (map g xs))"
  by (induction xs) simp_all

lemma due_names:
  "due sha256 dial (only processedNames) p
     = of_nat (sum_list (map (\<lambda>cert. length (DNSNames cert)) (begun p)))"
proof -
  have "weigh (only processedNames) (cert_adds sha256 dial cert) = of_nat (length (DNSNames cert))"
    for cert
    by (simp add: weigh_cert_adds [OF names_free_only, of _ 0] only_def)
  then show ?thesis
    by (simp add: due_def sum_list_of_nat)
qed

lemma due_certs:
  "due sha256 dial (only processedCerts) p = of_nat (length (begun p))"
proof -
  have "weigh (only processedCerts) (cert_adds sha256 dial cert) = 1" for cert
    by (simp add: weigh_cert_adds [OF names_free_only, of _ 0] only_def)
  then show ?thesis
    using due_const [of "only processedCerts" sha256 dial 1 p] by simp
qed

lemma due_summary:
  "due sha256 dial summary_weight p = of_nat (length (begun p))"
proof -
  have "weigh summary_weight (cert_adds sha256 dial cert) = 1" for cert
    by (simp add: weigh_cert_adds [OF names_free_summary_weight, of 1] summary_weight_def)
  then show ?thesis
    using due_const [of summary_weight sha256 dial 1 p] by simp
qed

text \<open>
  Every step of a worker that has not returned brings the pool closer to the end, so
  from any pool, whatever has happened before, the workers can be scheduled until all of
  them have returned.
\<close>

lemma length_outcome_adds: "length (outcome_adds oc) \<le> 2"
  by (cases oc) simp_all

lemma length_concat_outcome_adds:
  "length (concat (map (\<lambda>r. outcome_adds (outcome_of r)) rs)) \<le> 2 * length rs"
proof (induction rs)
  case Nil
  show ?case by simp
next
  case (Cons r rs)
  with length_outcome_adds [of "outcome_of r"] show ?case by simp
qed

lemma length_processResults_adds: "length (processResults_adds rs) \<le> 2 * length rs + 1"
  using length_concat_outcome_adds [of rs]
  by (simp add: processResults_adds_def summary_adds_def)

lemma cost_update:
  "i < length ws \<Longrightarrow>
     sum_list (map worker_cost (ws[i := w])) + worker_cost (ws ! i)
       = sum_list (map worker_cost ws) + worker_cost w"
proof (induction ws arbitrary: i)
  case Nil
  then show ?case by simp
next
  case (Cons a ws)
  then show ?case by (cases i) simp_all
qed

lemma work_left_set_worker:
  assumes "i < length (workers p)"
  shows "work_left (set_worker i w p) + worker_cost (workers p ! i) = work_left p + worker_cost w"
  using cost_update [OF assms, of w] by (simp add: work_left_def)

lemma worker_step_less:
  assumes i: "i < length (workers p)" and nr: "workers p ! i \<noteq> Returned"
  shows "work_left (worker_step sha256 net i p) < work_left p"
proof (cases "workers p ! i")
  case Receiving
  show ?thesis
  proof (cases "entries p")
    case Nil
    with Receiving work_left_set_worker [OF i, of Returned] show ?thesis
      by (simp add: worker_step_def)
  next
    case (Cons te rest)
    have "i < length (workers (p\<lparr>entries := rest\<rparr>))" using i by simp
    from work_left_set_worker [OF this, of "Selecting te"] Receiving Cons
    show ?thesis
      by (simp add: worker_step_def work_left_def)
  qed
next
  case (Selecting te)
  show ?thesis
  proof (cases "i < length (stops p) \<and> stops p ! i")
    case True
    have "i < length (workers (p\<lparr>stops := (stops p)[i := False]\<rparr>))" using i by simp
    from work_left_set_worker [OF this, of Returned] Selecting True
    show ?thesis
      by (simp add: worker_step_def work_left_def)
  next
    case False
    have "i < length (workers (p\<lparr>begun := begun p @ [te]\<rparr>))" using i by simp
    from work_left_set_worker [OF this, of "Probing (sha256 (Raw te)) (DNSNames te) []"]
      Selecting False
    show ?thesis
      by (auto simp add: worker_step_def work_left_def)
  qed
next
  case (Probing fp names results)
  show ?thesis
  proof (cases names)
    case Nil
    with Probing work_left_set_worker [OF i, of "Adding (processResults_adds results @ [processedCerts])"]
      length_processResults_adds [of results]
    show ?thesis
      by (simp add: worker_step_def)
  next
    case (Cons name rest)
    let ?r = "checkName_result sha256 (net (clock p) name) fp"
    let ?p = "p\<lparr>counters := AddInt64 processedNames 1 (counters p)\<rparr>"
    have "i < length (workers ?p)" using i by simp
    from work_left_set_worker [OF this, of "Probing fp rest (results @ [?r])"] Probing Cons
    show ?thesis
      by (simp add: worker_step_def work_left_def checkName_def)
  qed
next
  case (Adding fs)
  show ?thesis
  proof (cases fs)
    case Nil
    with Adding work_left_set_worker [OF i, of Receiving] show ?thesis
      by (simp add: worker_step_def)
  next
    case (Cons f rest)
    let ?p = "p\<lparr>counters := AddInt64 f 1 (counters p)\<rparr>"
    have "i < length (workers ?p)" using i by simp
    from work_left_set_worker [OF this, of "Adding rest"] Adding Cons
    show ?thesis
      by (simp add: worker_step_def work_left_def)
  qed
next
  case Returned
  with nr show ?thesis by simp
qed

lemma step_Work_less:
  assumes "i < length (workers p)" and "workers p ! i \<noteq> Returned"
  shows "work_left (step sha256 net (Work i) p) < work_left p"
  using worker_step_less [OF assms, of sha256 net] assms(1)
  by (simp add: step_def Let_def work_left_def)

lemma run_Cons: "run sha256 net (e # sched) p = run sha256 net sched (step sha256 net e p)"
  by (simp add: run_def)

lemma completion_reachable:
  "\<exists>sched. Interrupt \<notin> set sched \<and> all_returned (run sha256 net sched p)"
proof (induction "work_left p" arbitrary: p rule: less_induct)
  case less
  show ?case
  proof (cases "all_returned p")
    case True
    then have "Interrupt \<notin> set [] \<and> all_returned (run sha256 net [] p)"
      by (simp add: run_def)
    then show ?thesis by blast
  next
    case False
    then obtain i where i: "i < length (workers p)" and nr: "workers p ! i \<noteq> Returned"
      by (auto simp add: all_returned_def list_all_length)
    from less [OF step_Work_less [OF i nr, of sha256 net]]
    obtain sched where "Interrupt \<notin> set sched"
      and "all_returned (run sha256 net sched (step sha256 net (Work i) p))"
      by blast
    then have "Interrupt \<notin> set (Work i # sched)
               \<and> all_returned (run sha256 net (Work i # sched) p)"
      by (simp add: run_Cons)
    then show ?thesis by blast
  qed
qed

lemma mid_certificate_progress:
  assumes "i < length (workers p)" and "mid_certificate (workers p ! i)"
  shows "worker_cost (workers (worker_step sha256 net i p) ! i) < worker_cost (workers p ! i)"
proof (cases "workers p ! i")
  case (Probing fp names results)
  show ?thesis
  proof (cases names)
    case Nil
    with Probing assms(1) length_processResults_adds [of results] show ?thesis
      by (simp add: worker_step_def)
  next
    case (Cons name rest)
    with Probing assms(1) show ?thesis
      by (simp add: worker_step_def checkName_def)
  qed
next
  case (Adding fs)
  with assms(1) show ?thesis
    by (cases fs) (simp_all add: worker_step_def)
qed (use assms(2) in simp_all)

lemma run_end_accounts:
  assumes "q = run sha256 net sched (begin_pool n certs)" and "all_returned q"
  shows "counters q processedCerts = of_nat (length (begun q))"
    and "counters q processedNames
           = of_nat (sum_list (map (\<lambda>cert. length (DNSNames cert)) (begun q)))"
    and "counters q CertsUnused + counters q CertsPartiallyUsed + counters q CertsTotallyUsed
           = of_nat (length (begun q))"
proof -
  obtain dial :: "string \<Rightarrow> dial_result" where "dial = dial" by simp
  have fin: "all_returned (run sha256 net sched (begin_pool n certs))"
    using assms by simp
  have "counters q processedCerts = due sha256 dial (only processedCerts) q"
    unfolding assms(1)
    by (rule run_to_end [OF observes_only _ _ fin]) (simp_all add: blind_only zero_store_def)
  then show "counters q processedCerts = of_nat (length (begun q))"
    by (simp add: due_certs)
  have "counters q processedNames = due sha256 dial (only processedNames) q"
    unfolding assms(1)
    by (rule run_to_end [OF observes_only _ _ fin]) (simp_all add: blind_only zero_store_def)
  then show "counters q processedNames
               = of_nat (sum_list (map (\<lambda>cert. length (DNSNames cert)) (begun q)))"
    by (simp add: due_names)
  have "summary_total (counters q) = due sha256 dial summary_weight q"
    unfolding assms(1)
    by (rule run_to_end [OF observes_summary _ _ fin])
       (simp_all add: blind_summary zero_store_def summary_total_def)
  then show "counters q CertsUnused + counters q CertsPartiallyUsed + counters q CertsTotallyUsed
               = of_nat (length (begun q))"
    by (simp add: due_summary summary_total_def)
qed

text \<open>
  C7. A worker in the middle of a certificate does not return at the next step, whoever
  takes it; its own step leaves the stop channels alone, since the stop value is taken
  at the \<^verbatim>\<open>select\<close> and nowhere else, and brings it closer to the end of the
  certificate, stop request or not. So when all workers have returned, interrupted or
  not, every certificate for which \<^verbatim>\<open>checkCert\<close> was called has been counted in
  \<^verbatim>\<open>processedCerts\<close>, each of its names in \<^verbatim>\<open>processedNames\<close>, and its summary in
  one of the three certificate counters.
\<close>

theorem stop_between_certificates:
  assumes "q = run sha256 net sched (begin_pool n certs)"
  shows "(i < length (workers p) \<and> mid_certificate (workers p ! i) \<longrightarrow>
            workers (step sha256 net e p) ! i \<noteq> Returned
            \<and> stops (worker_step sha256 net i p) = stops p
            \<and> worker_cost (workers (worker_step sha256 net i p) ! i)
                < worker_cost (workers p ! i))
       \<and> (all_returned q \<longrightarrow>
            counters q processedCerts = of_nat (length (begun q))
            \<and> counters q processedNames
                = of_nat (sum_list (map (\<lambda>cert. length (DNSNames cert)) (begun q)))
            \<and> counters q CertsUnused + counters q CertsPartiallyUsed
                + counters q CertsTotallyUsed = of_nat (length (begun q)))"
  using mid_certificate_step [of i p sha256 net e] mid_certificate_own_step(2) [of i p sha256 net]
    mid_certificate_progress [of i p sha256 net] run_end_accounts [OF assms]
  by blast

theorem stop_between_certificates_witness:
  "0 < length (workers interrupted_middle)
   \<and> mid_certificate (workers interrupted_middle ! 0)
   \<and> stops interrupted_middle ! 0
   \<and> workers (step id (\<lambda>t. example_dial) (Work 0) interrupted_middle) ! 0 \<noteq> Returned
   \<and> stops (worker_step id (\<lambda>t. example_dial) 0 interrupted_middle) = stops interrupted_middle
   \<and> all_returned interrupted_end
   \<and> begun interrupted_end = [two_names_cert]
   \<and> counters interrupted_end processedCerts = 1
   \<and> counters interrupted_end processedNames = 2
   \<and> counters interrupted_end CertsUnused + counters interrupted_end CertsPartiallyUsed
       + counters interrupted_end CertsTotallyUsed = 1"
proof -
  have mid: "0 < length (workers interrupted_middle)
             \<and> mid_certificate (workers interrupted_middle ! 0)"
    and stop: "stops interrupted_middle ! 0"
    and beg: "begun interrupted_end = [two_names_cert]"
    by code_simp+
  from stop_between_certificates [OF interrupted_end_def, of 0 interrupted_middle "Work 0"] mid
    interrupted_returned
  have "workers (step id (\<lambda>t. example_dial) (Work 0) interrupted_middle) ! 0 \<noteq> Returned"
    and "stops (worker_step id (\<lambda>t. example_dial) 0 interrupted_middle) = stops interrupted_middle"
    and "counters interrupted_end processedCerts = of_nat (length (begun interrupted_end))"
    and "counters interrupted_end processedNames
           = of_nat (sum_list (map (\<lambda>cert. length (DNSNames cert)) (begun interrupted_end)))"
    and "counters interrupted_end CertsUnused + counters interrupted_end CertsPartiallyUsed
       + counters interrupted_end CertsTotallyUsed = of_nat (length (begun interrupted_end))"
    by blast+
  then show ?thesis
    using mid stop interrupted_returned unfolding beg
    by (simp add: two_names_cert_def)
qed

text \<open>
  Without an interrupt the pool stays quiet, no certificate is dropped, and the first
  worker to return finds the queue empty: \<open>steady\<close> is an invariant of such runs.
\<close>

lemma quiet_stop:
  assumes "quiet p" and "i < length (workers p)"
  shows "\<not> stops p ! i"
  using assms by (simp add: quiet_def list_all_length)

lemma held_update:
  "i < length ws \<Longrightarrow>
     sum_list (map (held g) (ws[i := w])) = sum_list (map (held g) ws) - held g (ws ! i) + held g w"
  by (rule sum_list_map_update)

lemma Returned_update:
  assumes "Returned \<in> set (ws[i := w])" and "w \<noteq> Returned"
  shows "Returned \<in> set ws"
  using assms set_update_subset_insert [of ws i w] by auto

lemma worker_step_steady:
  assumes q: "quiet p" and c: "conserved g tot p" and d: "drained p"
    and i: "i < length (workers p)"
  shows "steady g tot (worker_step sha256 net i p)"
proof (cases "workers p ! i")
  case Receiving
  show ?thesis
  proof (cases "entries p")
    case Nil
    with Receiving q c d i show ?thesis
      by (simp add: worker_step_def steady_def quiet_def conserved_def drained_def held_update ac_simps)
  next
    case (Cons te rest)
    with d have "Returned \<notin> set (workers p)" by (auto simp add: drained_def)
    then have "Returned \<notin> set ((workers p)[i := Selecting te])"
      using Returned_update [of "workers p" i "Selecting te"] by auto
    with Receiving Cons q c i show ?thesis
      by (simp add: worker_step_def steady_def quiet_def conserved_def drained_def held_update ac_simps)
  qed
next
  case (Selecting te)
  have "Returned \<in> set ((workers p)[i := Probing fp names rs]) \<Longrightarrow> Returned \<in> set (workers p)"
    for fp names rs
    by (erule Returned_update) simp
  with Selecting q c d i quiet_stop [OF q i] show ?thesis
    by (auto simp add: worker_step_def steady_def quiet_def conserved_def drained_def held_update ac_simps)
next
  case (Probing fp names results)
  have *: "Returned \<in> set ((workers p)[i := Probing fp' names' rs]) \<Longrightarrow> Returned \<in> set (workers p)"
    for fp' names' rs
    by (erule Returned_update) simp
  have **: "Returned \<in> set ((workers p)[i := Adding fs]) \<Longrightarrow> Returned \<in> set (workers p)"
    for fs
    by (erule Returned_update) simp
  from Probing q c d i show ?thesis
    by (cases names)
       (auto simp add: worker_step_def steady_def quiet_def conserved_def drained_def held_update
          checkName_def ac_simps dest: * **)
next
  case (Adding fs)
  have *: "Returned \<in> set ((workers p)[i := Receiving]) \<Longrightarrow> Returned \<in> set (workers p)"
    by (erule Returned_update) simp
  have **: "Returned \<in> set ((workers p)[i := Adding fs']) \<Longrightarrow> Returned \<in> set (workers p)"
    for fs'
    by (erule Returned_update) simp
  from Adding q c d i show ?thesis
    by (cases fs)
       (auto simp add: worker_step_def steady_def quiet_def conserved_def drained_def held_update
          ac_simps dest: * **)
next
  case Returned
  with q c d show ?thesis
    by (simp add: worker_step_def steady_def)
qed

lemma step_steady:
  assumes "e \<noteq> Interrupt" and "steady g tot p"
  shows "steady g tot (step sha256 net e p)"
proof (cases e)
  case (Work i)
  show ?thesis
  proof (cases "i < length (workers p)")
    case True
    from assms(2) have "steady g tot (worker_step sha256 net i p)"
      unfolding steady_def by (intro worker_step_steady [unfolded steady_def] True) simp_all
    with Work True show ?thesis
      by (simp add: step_def Let_def steady_def quiet_def conserved_def drained_def)
  next
    case False
    with Work assms(2) show ?thesis
      by (simp add: step_def Let_def steady_def quiet_def conserved_def drained_def)
  qed
next
  case Interrupt
  with assms(1) show ?thesis by simp
next
  case Send
  with assms(2) show ?thesis
    by (simp add: step_def Let_def handler_step_def steady_def quiet_def conserved_def
        drained_def)
qed

lemma run_steady:
  assumes "Interrupt \<notin> set sched" and "steady g tot p"
  shows "steady g tot (run sha256 net sched p)"
  using assms
proof (induction sched arbitrary: p)
  case Nil
  then show ?case by (simp add: run_def)
next
  case (Cons e sched)
  from Cons.prems have "steady g tot (step sha256 net e p)"
    by (intro step_steady) auto
  with Cons.IH [of "step sha256 net e p"] Cons.prems(1) show ?case
    by (simp add: run_def)
qed

lemma begin_steady:
  fixes g :: "Certificate \<Rightarrow> 64 word"
  shows "steady g (sum_list (map g certs)) (begin_pool n certs)"
  by (simp add: steady_def quiet_def conserved_def drained_def begin_pool_def
      list_all_length sum_list_replicate map_replicate_const)

lemma all_begun:
  fixes g :: "Certificate \<Rightarrow> 64 word"
  assumes "0 < n" and "Interrupt \<notin> set sched"
    and "all_returned (run sha256 net sched (begin_pool n certs))"
  shows "sum_list (map g (begun (run sha256 net sched (begin_pool n certs))))
           = sum_list (map g certs)"
proof -
  let ?q = "run sha256 net sched (begin_pool n certs)"
  have st: "steady g (sum_list (map g certs)) ?q"
    by (rule run_steady [OF assms(2) begin_steady])
  have "0 < length (workers ?q)" using assms(1) by (simp add: begin_pool_def)
  then have "workers ?q \<noteq> []" by (rule length_greater_0_conv [THEN iffD1])
  then have "hd (workers ?q) \<in> set (workers ?q)" by (rule hd_in_set)
  moreover have ret: "w = Returned" if "w \<in> set (workers ?q)" for w
    using assms(3) that by (simp add: all_returned_def list_all_iff)
  ultimately have "Returned \<in> set (workers ?q)" by metis
  with st have "entries ?q = []" by (simp add: steady_def drained_def)
  moreover have "sum_list (map (held g) (workers ?q)) = 0"
  proof (rule sum_list_map_zero)
    fix w assume "w \<in> set (workers ?q)"
    then have "w = Returned" by (rule ret)
    then show "held g w = 0" by simp
  qed
  ultimately show ?thesis
    using st by (simp add: steady_def conserved_def)
qed

text \<open>
  The counters after a complete run without interrupt are those of the sequential scan.
\<close>

lemma foldl_checkCert_apply:
  "foldl (\<lambda>s cert. checkCert sha256 dial cert s) s certs f
     = s f + sum_list (map (\<lambda>cert. weigh (only f) (cert_adds sha256 dial cert)) certs)"
  by (induction certs arbitrary: s) (simp_all add: checkCert_apply add.assoc)

lemma scan_all_apply:
  "scan_all sha256 dial certs f
     = sum_list (map (\<lambda>cert. weigh (only f) (cert_adds sha256 dial cert)) certs)"
  by (simp add: scan_all_def foldl_checkCert_apply zero_store_def)

lemma run_complete:
  assumes "0 < n" and "Interrupt \<notin> set sched"
    and "all_returned (run sha256 (\<lambda>t. dial) sched (begin_pool n certs))"
  shows "counters (run sha256 (\<lambda>t. dial) sched (begin_pool n certs)) = scan_all sha256 dial certs"
proof
  fix f
  let ?q = "run sha256 (\<lambda>t. dial) sched (begin_pool n certs)"
  have "counters ?q f = due sha256 dial (only f) ?q"
    by (rule run_to_end [OF observes_only _ _ assms(3)]) (simp_all add: zero_store_def)
  also have "\<dots> = sum_list (map (\<lambda>cert. weigh (only f) (cert_adds sha256 dial cert)) certs)"
    unfolding due_def by (rule all_begun [OF assms])
  finally show "counters ?q f = scan_all sha256 dial certs f"
    by (simp add: scan_all_apply)
qed

text \<open>
  C8. With a network that answers each name the same way at all times and no
  interrupt, a run of one worker and a run of \<open>n \<ge> 1\<close> workers that both reach the end
  leave the same counters, whatever the two schedules: those of scanning the queue
  certificate after certificate. Such runs exist for every queue.
\<close>

theorem pool_size_independent:
  assumes "0 < n"
    and "Interrupt \<notin> set sched1" and "Interrupt \<notin> set schedN"
    and "all_returned (run sha256 (\<lambda>t. dial) sched1 (begin_pool 1 certs))"
    and "all_returned (run sha256 (\<lambda>t. dial) schedN (begin_pool n certs))"
  shows "counters (run sha256 (\<lambda>t. dial) sched1 (begin_pool 1 certs))
           = counters (run sha256 (\<lambda>t. dial) schedN (begin_pool n certs))
       \<and> counters (run sha256 (\<lambda>t. dial) schedN (begin_pool n certs))
           = scan_all sha256 dial certs
       \<and> (\<exists>s1 sN. Interrupt \<notin> set s1 \<and> Interrupt \<notin> set sN
            \<and> all_returned (run sha256 (\<lambda>t. dial) s1 (begin_pool 1 certs))
            \<and> all_returned (run sha256 (\<lambda>t. dial) sN (begin_pool n certs)))"
proof -
  have "counters (run sha256 (\<lambda>t. dial) sched1 (begin_pool 1 certs))
          = scan_all sha256 dial certs"
    by (rule run_complete [OF _ assms(2,4)]) simp
  moreover have "counters (run sha256 (\<lambda>t. dial) schedN (begin_pool n certs))
          = scan_all sha256 dial certs"
    by (rule run_complete [OF assms(1,3,5)])
  moreover from completion_reachable [of sha256 "\<lambda>t. dial" "begin_pool 1 certs"]
    completion_reachable [of sha256 "\<lambda>t. dial" "begin_pool n certs"]
  have "\<exists>s1 sN. Interrupt \<notin> set s1 \<and> Interrupt \<notin> set sN
          \<and> all_returned (run sha256 (\<lambda>t. dial) s1 (begin_pool 1 certs))
          \<and> all_returned (run sha256 (\<lambda>t. dial) sN (begin_pool n certs))"
    by blast
  ultimately show ?thesis by simp
qed

theorem pool_size_independent_witness:
  "(0::int) < 2
   \<and> Interrupt \<notin> set one_worker_schedule \<and> Interrupt \<notin> set two_workers_schedule
   \<and> all_returned one_worker_end \<and> all_returned two_workers_end
   \<and> counters one_worker_end = counters two_workers_end
   \<and> counters two_workers_end = scan_all id example_dial [two_names_cert, no_names_cert]
   \<and> counters two_workers_end CertsPartiallyUsed = 1
   \<and> counters two_workers_end NamesUnavailable = 1"
proof -
  have n: "(0::int) < 2" by simp
  have s1: "Interrupt \<notin> set one_worker_schedule"
    and s2: "Interrupt \<notin> set two_workers_schedule"
    by (simp_all add: one_worker_schedule_def two_workers_schedule_def)
  have v: "counters two_workers_end CertsPartiallyUsed = 1"
    "counters two_workers_end NamesUnavailable = 1"
    by code_simp+
  from pool_size_independent [OF n s1 s2 one_worker_returned [unfolded one_worker_end_def]
      two_workers_returned [unfolded two_workers_end_def]]
  show ?thesis
    using n s1 s2 one_worker_returned two_workers_returned v
    unfolding one_worker_end_def [symmetric] two_workers_end_def [symmetric]
    by blast
qed

text \<open>
  The bound \<open>n \<ge> 1\<close> is needed: with \<^verbatim>\<open>t.workers\<close> zero or negative no goroutine is
  started, \<^verbatim>\<open>wg.Wait()\<close> returns at once and every counter stays 0.
\<close>

lemma no_workers:
  assumes "n \<le> 0"
  shows "all_returned (run sha256 net sched (begin_pool n certs))"
    and "counters (run sha256 net sched (begin_pool n certs)) = zero_store"
proof -
  have w: "workers (run sha256 net sched p) = [] \<and> counters (run sha256 net sched p) = counters p"
    if "workers p = []" for p
    using that
  proof (induction sched arbitrary: p)
    case Nil
    then show ?case by (simp add: run_def)
  next
    case (Cons e sched)
    have "workers (step sha256 net e p) = [] \<and> counters (step sha256 net e p) = counters p"
      using Cons.prems
      by (cases e) (simp_all add: step_def Let_def handler_step_def split: handler.split)
    with Cons.IH [of "step sha256 net e p"] show ?case
      by (simp add: run_Cons)
  qed
  have "workers (begin_pool n certs) = []" using assms by (simp add: begin_pool_def)
  from w [OF this] show "all_returned (run sha256 net sched (begin_pool n certs))"
    and "counters (run sha256 net sched (begin_pool n certs)) = zero_store"
    by (simp_all add: all_returned_def begin_pool_def)
qed

end
